theory Spec2Isabelle
  imports Main "HOL-Library.Sublist"
begin

section \<open>The Ralph loop stop hook (plugins/ralph-loop/hooks/stop-hook.sh)\<close>

text \<open>
  The hook is a bash script run once per stop event under \<^verbatim>\<open>set -euo pipefail\<close>.
  It is modelled as a function from an environment (standard input, the regular files
  by path, the process id) to a result (exit status, the lines the script writes to
  standard output and to the error stream, the files afterwards).

  Conventions of the model:
  \<^item> a text file is the list of its lines, without the newline terminators;
  \<^item> what flows through a pipe between two line-oriented tools is a list of lines;
    where a tool works on bytes (\<^verbatim>\<open>tr\<close>) or produces newlines inside a line
    (\<^verbatim>\<open>sed 's/\\n/\n/g'\<close>) the byte stream is written out and split again;
  \<^item> a command substitution yields the bytes written with all trailing newlines
    removed;
  \<^item> a command whose failure ends the script under \<^verbatim>\<open>set -e\<close> or
    \<^verbatim>\<open>set -u\<close> is a branch of its own (\<open>ErrExit\<close>, exit status 1);
  \<^item> the error stream holds the lines the script itself writes with \<^verbatim>\<open>>&2\<close>;
    messages the shell prints on its own are not recorded;
  \<^item> paths are compared as strings, writes and removals succeed.
\<close>

subsection \<open>Characters, lines, pipes\<close>

definition nl :: char where "nl = CHR 0x0A"
definition dq :: char where "dq = CHR 0x22"
definition sq :: char where "sq = CHR 0x27"
definition bslash :: char where "bslash = CHR 0x5C"
definition sp :: char where "sp = CHR 0x20"

text \<open>The POSIX class \<^verbatim>\<open>[:space:]\<close>: space, tab, newline, vertical tab, form feed, carriage return.\<close>

definition is_space :: "char \<Rightarrow> bool" where
  "is_space c = (c = sp \<or> c = CHR 0x09 \<or> c = nl \<or> c = CHR 0x0B \<or> c = CHR 0x0C \<or> c = CHR 0x0D)"

text \<open>How a line-oriented tool reads a byte stream: lines end at a newline, a last line
  may lack it.\<close>

fun lines_from :: "string \<Rightarrow> string \<Rightarrow> string list" where
  "lines_from cur [] = (if cur = [] then [] else [cur])"
| "lines_from cur (c # cs) = (if c = nl then cur # lines_from [] cs else lines_from (cur @ [c]) cs)"

definition split_lines :: "string \<Rightarrow> string list" where
  "split_lines s = lines_from [] s"

text \<open>The byte stream of a list of lines, each written with its newline.\<close>

definition stream_of :: "string list \<Rightarrow> string" where
  "stream_of ls = concat (map (\<lambda>l. l @ [nl]) ls)"

text \<open>\<^verbatim>\<open>$(...)\<close>: the output without its trailing newlines.\<close>

definition cmdsubst :: "string \<Rightarrow> string" where
  "cmdsubst s = rev (dropWhile (\<lambda>c. c = nl) (rev s))"

text \<open>\<^verbatim>\<open>echo "$V" |\<close>: the lines of the value followed by a newline.\<close>

definition echo :: "string \<Rightarrow> string list" where
  "echo v = split_lines (v @ [nl])"

text \<open>\<^verbatim>\<open>grep 'literal'\<close>: does the line contain the literal text.\<close>

fun has_infix :: "string \<Rightarrow> string \<Rightarrow> bool" where
  "has_infix p [] = (p = [])"
| "has_infix p (c # cs) = (prefix p (c # cs) \<or> has_infix p cs)"

text \<open>\<^verbatim>\<open>sed 's/literal/replacement/g'\<close> on one line: the occurrences are replaced from
  the left, without overlap. The first argument counts the characters of a match that
  are still to be skipped.\<close>

fun subst_g :: "nat \<Rightarrow> string \<Rightarrow> string \<Rightarrow> string \<Rightarrow> string" where
  "subst_g k p r [] = []"
| "subst_g (Suc k) p r (c # cs) = subst_g k p r cs"
| "subst_g 0 p r (c # cs) =
     (if prefix p (c # cs) then r @ subst_g (length p - 1) p r cs else c # subst_g 0 p r cs)"

text \<open>\<^verbatim>\<open>grep -o\<close> on one line, for a pattern whose match at a position is given by
  \<open>m\<close> (the matched text): every match from the left, without overlap.\<close>

fun grep_o :: "(string \<Rightarrow> string option) \<Rightarrow> nat \<Rightarrow> string \<Rightarrow> string list" where
  "grep_o m k [] = []"
| "grep_o m (Suc k) (c # cs) = grep_o m k cs"
| "grep_o m 0 (c # cs) =
     (case m (c # cs) of
        Some t \<Rightarrow> t # grep_o m (length t - 1) cs
      | None \<Rightarrow> grep_o m 0 cs)"

subsection \<open>Integers of the shell\<close>

definition digit_char :: "nat \<Rightarrow> char" where
  "digit_char d = char_of (48 + d)"

definition digit_val :: "char \<Rightarrow> nat" where
  "digit_val c = of_char c - 48"

definition is_digit :: "char \<Rightarrow> bool" where
  "is_digit c = (48 \<le> (of_char c :: nat) \<and> (of_char c :: nat) \<le> 57)"

text \<open>\<^verbatim>\<open>[[ "$V" =~ ^[0-9]+$ ]]\<close>\<close>

definition is_number :: "string \<Rightarrow> bool" where
  "is_number s = (s \<noteq> [] \<and> list_all is_digit s)"

text \<open>Shell arithmetic is signed 64-bit and wraps.\<close>

definition wrap64 :: "int \<Rightarrow> int" where
  "wrap64 x = (x + 2 ^ 63) mod 2 ^ 64 - 2 ^ 63"

definition radix_val :: "nat \<Rightarrow> string \<Rightarrow> nat" where
  "radix_val b s = foldl (\<lambda>a c. a * b + digit_val c) 0 s"

text \<open>The value of a string of digits where the shell evaluates it as an arithmetic
  constant: a leading \<^verbatim>\<open>0\<close> makes it octal, and an octal constant with a digit
  \<^verbatim>\<open>8\<close> or \<^verbatim>\<open>9\<close> is an error (\<open>None\<close>).\<close>

definition bash_number :: "string \<Rightarrow> int option" where
  "bash_number s =
     (if 1 < length s \<and> hd s = CHR ''0''
      then (if list_ex (\<lambda>c. c = CHR ''8'' \<or> c = CHR ''9'') s then None
            else Some (wrap64 (int (radix_val 8 s))))
      else Some (wrap64 (int (radix_val 10 s))))"

fun show_nat :: "nat \<Rightarrow> string" where
  "show_nat n = (if n < 10 then [digit_char n] else show_nat (n div 10) @ [digit_char (n mod 10)])"

declare show_nat.simps [simp del]

definition show_int :: "int \<Rightarrow> string" where
  "show_int i = (if i < 0 then CHR ''-'' # show_nat (nat (- i)) else show_nat (nat i))"

subsection \<open>Environment and result\<close>

record env =
  stdin :: string
  fs :: "string \<rightharpoonup> string list"
  pid :: nat

text \<open>The places where the script ends. \<open>ErrExit\<close> is the shell ending the script:
  a command failed under \<^verbatim>\<open>set -e\<close> (with \<^verbatim>\<open>pipefail\<close> inside the command
  substitutions), or an unset variable was expanded under \<^verbatim>\<open>set -u\<close>. The others are
  the script's own \<^verbatim>\<open>exit 0\<close> lines, in the order of the file.\<close>

datatype exit_point =
    NoActiveLoop
  | ErrExit
  | CorruptIteration
  | CorruptMaxIterations
  | MaxIterationsReached
  | NoTranscriptPath
  | TranscriptNotFound
  | NoAssistantMessages
  | LastLineEmpty
  | NoTextContent
  | PromiseDetected
  | NoPromptText
  | Blocked

record result =
  exit_code :: nat
  out :: "string list"
  err :: "string list"
  files :: "string \<rightharpoonup> string list"
  exit_at :: exit_point

definition RALPH_STATE_FILE :: string where
  "RALPH_STATE_FILE = ''.claude/ralph-loop.local.md''"

text \<open>The glyphs of the messages, as the UTF-8 bytes of the script.\<close>

definition warn_sign :: string where
  "warn_sign = [CHR 0xE2, CHR 0x9A, CHR 0xA0, CHR 0xEF, CHR 0xB8, CHR 0x8F]"

definition stop_sign :: string where
  "stop_sign = [CHR 0xF0, CHR 0x9F, CHR 0x9B, CHR 0x91]"

definition check_sign :: string where
  "check_sign = [CHR 0xE2, CHR 0x9C, CHR 0x85]"

definition loop_sign :: string where
  "loop_sign = [CHR 0xF0, CHR 0x9F, CHR 0x94, CHR 0x84]"

definition bullet :: string where
  "bullet = [CHR 0xE2, CHR 0x80, CHR 0xA2]"

text \<open>\<^verbatim>\<open>exit 0\<close> with nothing touched (line 20).\<close>

definition no_loop :: "env \<Rightarrow> result" where
  "no_loop e = \<lparr>exit_code = 0, out = [], err = [], files = fs e, exit_at = NoActiveLoop\<rparr>"

text \<open>The shell ends the script with status 1; nothing was written or removed yet.\<close>

definition errexit :: "env \<Rightarrow> result" where
  "errexit e = \<lparr>exit_code = 1, out = [], err = [], files = fs e, exit_at = ErrExit\<rparr>"

text \<open>\<^verbatim>\<open>rm "$RALPH_STATE_FILE"; exit 0\<close> after the messages of a branch.\<close>

definition stop_loop :: "env \<Rightarrow> exit_point \<Rightarrow> string list \<Rightarrow> string list \<Rightarrow> result" where
  "stop_loop e p o_lines e_lines =
     \<lparr>exit_code = 0, out = o_lines, err = e_lines,
      files = (fs e)(RALPH_STATE_FILE := None), exit_at = p\<rparr>"

definition then_do :: "result + 'a \<Rightarrow> ('a \<Rightarrow> result + 'b) \<Rightarrow> result + 'b" where
  "then_do m f = (case m of Inl r \<Rightarrow> Inl r | Inr x \<Rightarrow> f x)"

text \<open>What a stage hands on to the next one, if the script has not ended there.\<close>

definition proceeds :: "result + 'a \<Rightarrow> 'a option" where
  "proceeds m = (case m of Inl r \<Rightarrow> None | Inr v \<Rightarrow> Some v)"

subsection \<open>Lines 15-28: the state file and its frontmatter\<close>

definition load_state :: "env \<Rightarrow> result + string list" where
  "load_state e = (case fs e RALPH_STATE_FILE of None \<Rightarrow> Inl (no_loop e) | Some sf \<Rightarrow> Inr sf)"

text \<open>\<^verbatim>\<open>sed -n '/^---$/,/^---$/{ /^---$/d; p; }'\<close>: a range opens at a delimiter line and
  closes at the next one; the lines inside are printed, the delimiters are not. A later
  delimiter opens a new range. The flag says whether a range is open.\<close>

fun sed_frontmatter :: "bool \<Rightarrow> string list \<Rightarrow> string list" where
  "sed_frontmatter inside [] = []"
| "sed_frontmatter False (l # ls) =
     (if l = ''---'' then sed_frontmatter True ls else sed_frontmatter False ls)"
| "sed_frontmatter True (l # ls) =
     (if l = ''---'' then sed_frontmatter False ls else l # sed_frontmatter True ls)"

text \<open>\<^verbatim>\<open>sed 's/KEY *//'\<close>: the first occurrence of the key and the spaces after it are
  deleted.\<close>

fun sed_strip :: "string \<Rightarrow> string \<Rightarrow> string" where
  "sed_strip k [] = []"
| "sed_strip k (c # cs) =
     (if prefix k (c # cs) then dropWhile (\<lambda>x. x = sp) (drop (length k) (c # cs))
      else c # sed_strip k cs)"

text \<open>\<^verbatim>\<open>sed 's/^"\(.*\)"$/\1/'\<close>: one layer of surrounding double quotes is removed.\<close>

definition sed_unquote :: "string \<Rightarrow> string" where
  "sed_unquote l = (if 2 \<le> length l \<and> hd l = dq \<and> last l = dq then butlast (tl l) else l)"

text \<open>\<^verbatim>\<open>$(echo "$FRONTMATTER" | grep '^KEY' | sed 's/KEY *//' | post)\<close>. When grep selects
  no line the pipeline fails and the assignment ends the script: \<open>None\<close>.\<close>

definition field :: "string \<Rightarrow> (string \<Rightarrow> string) \<Rightarrow> string \<Rightarrow> string option" where
  "field k post FM =
     (let sel = filter (prefix k) (echo FM)
      in if sel = [] then None
         else Some (cmdsubst (stream_of (map (\<lambda>l. post (sed_strip k l)) sel))))"

definition parse_fields :: "string list \<Rightarrow> (string \<times> string \<times> string) option" where
  "parse_fields sf =
     (let FRONTMATTER = cmdsubst (stream_of (sed_frontmatter False sf))
      in case field ''iteration:'' id FRONTMATTER of None \<Rightarrow> None
         | Some ITERATION \<Rightarrow>
        (case field ''max_iterations:'' id FRONTMATTER of None \<Rightarrow> None
         | Some MAX_ITERATIONS \<Rightarrow>
        (case field ''completion_promise:'' sed_unquote FRONTMATTER of None \<Rightarrow> None
         | Some COMPLETION_PROMISE \<Rightarrow> Some (ITERATION, MAX_ITERATIONS, COMPLETION_PROMISE))))"

subsection \<open>Lines 30-58: numeric validation and the iteration cap\<close>

definition corrupt_msg :: "string \<Rightarrow> string \<Rightarrow> string list" where
  "corrupt_msg name v =
     [warn_sign @ ''  Ralph loop: State file corrupted'',
      ''   File: '' @ RALPH_STATE_FILE]
     @ echo (''   Problem: '' @ [sq] @ name @ [sq] @ '' field is not a valid number (got: ''
             @ [sq] @ v @ [sq] @ '')'')
     @ [[],
        ''   This usually means the state file was manually edited or corrupted.'',
        ''   Ralph loop is stopping. Run /ralph-loop again to start fresh.'']"

definition validate :: "env \<Rightarrow> string \<Rightarrow> string \<Rightarrow> result + unit" where
  "validate e ITERATION MAX_ITERATIONS =
     (if \<not> is_number ITERATION
      then Inl (stop_loop e CorruptIteration [] (corrupt_msg ''iteration'' ITERATION))
      else if \<not> is_number MAX_ITERATIONS
      then Inl (stop_loop e CorruptMaxIterations [] (corrupt_msg ''max_iterations'' MAX_ITERATIONS))
      else Inr ())"

text \<open>\<^verbatim>\<open>[[ $MAX_ITERATIONS -gt 0 ]] && [[ $ITERATION -ge $MAX_ITERATIONS ]]\<close>. A test whose
  operand is not a valid constant is false.\<close>

definition cap_reached :: "string \<Rightarrow> string \<Rightarrow> bool" where
  "cap_reached ITERATION MAX_ITERATIONS =
     (case bash_number MAX_ITERATIONS of None \<Rightarrow> False
      | Some m \<Rightarrow> 0 < m \<and>
          (case bash_number ITERATION of None \<Rightarrow> False | Some i \<Rightarrow> m \<le> i))"

definition cap_msg :: "string \<Rightarrow> string list" where
  "cap_msg MAX_ITERATIONS =
     echo (stop_sign @ '' Ralph loop: Max iterations ('' @ MAX_ITERATIONS @ '') reached.'')"

definition check_cap :: "env \<Rightarrow> string \<Rightarrow> string \<Rightarrow> result + unit" where
  "check_cap e ITERATION MAX_ITERATIONS =
     (if cap_reached ITERATION MAX_ITERATIONS
      then Inl (stop_loop e MaxIterationsReached (cap_msg MAX_ITERATIONS) [])
      else Inr ())"

subsection \<open>Lines 60-78: the transcript path of the hook input\<close>

definition tp_key :: string where
  \<open>tp_key = ''"transcript_path"''\<close>

text \<open>The match of
  \<^verbatim>\<open>"transcript_path"[[:space:]]*:[[:space:]]*"[^"]*"\<close> at the start of a text, if there is
  one. Each starred part is followed by a character outside its class, so the match at
  a position is unique.\<close>

definition match_tp :: "string \<Rightarrow> string option" where
  "match_tp s =
     (if prefix tp_key s then
        (case dropWhile is_space (drop (length tp_key) s) of
           [] \<Rightarrow> None
         | c # r3 \<Rightarrow>
             if c \<noteq> CHR '':'' then None
             else (case dropWhile is_space r3 of
                     [] \<Rightarrow> None
                   | q # r5 \<Rightarrow>
                       if q \<noteq> dq then None
                       else (case dropWhile (\<lambda>x. x \<noteq> dq) r5 of
                               [] \<Rightarrow> None
                             | q' # r7 \<Rightarrow> Some (take (length s - length r7) s))))
      else None)"

definition after_quote :: "string \<Rightarrow> string" where
  "after_quote s = tl (dropWhile (\<lambda>x. x \<noteq> dq) s)"

text \<open>\<^verbatim>\<open>sed 's/.*"[^"]*"[[:space:]]*:[[:space:]]*"\([^"]*\)".*/\1/'\<close> on a match of the
  pattern above, which has exactly four double quotes: what is left is the text between
  the third and the fourth.\<close>

definition sed_tp_value :: "string \<Rightarrow> string" where
  "sed_tp_value m = takeWhile (\<lambda>x. x \<noteq> dq) (after_quote (after_quote (after_quote m)))"

definition transcript_path :: "env \<Rightarrow> result + string" where
  "transcript_path e =
     (let HOOK_INPUT = cmdsubst (stdin e);
          ms = concat (map (grep_o match_tp 0) (echo HOOK_INPUT))
      in if ms = [] then Inl (errexit e)
         else (let TRANSCRIPT_PATH = cmdsubst (stream_of (map sed_tp_value ms))
               in if TRANSCRIPT_PATH = []
                  then Inl (stop_loop e NoTranscriptPath []
                         [warn_sign @ ''  Ralph loop: No transcript path provided'',
                          ''   This is unusual and may indicate a Claude Code internal issue.'',
                          ''   Ralph loop is stopping.''])
                  else Inr TRANSCRIPT_PATH))"

subsection \<open>Lines 80-123: the text of the last assistant message\<close>

definition role_pat :: string where
  \<open>role_pat = ''"role":"assistant"''\<close>

definition content_key :: string where
  \<open>content_key = ''"content":[''\<close>

definition text_key :: string where
  \<open>text_key = ''"text":"''\<close>

definition before_last :: "char \<Rightarrow> string \<Rightarrow> string" where
  "before_last c s = rev (tl (dropWhile (\<lambda>x. x \<noteq> c) (rev s)))"

text \<open>\<^verbatim>\<open>sed -n 's/.*"content":\[\(.*\)\].*/\1/p'\<close> on one line. Both \<^verbatim>\<open>.*\<close> are greedy:
  the key is the last one that still has a closing bracket after it, and the group runs
  to the last closing bracket of the line. \<open>None\<close>: no match, nothing printed.\<close>

fun sed_content :: "string \<Rightarrow> string option" where
  "sed_content [] = None"
| "sed_content (c # cs) =
     (case sed_content cs of
        Some x \<Rightarrow> Some x
      | None \<Rightarrow>
          if prefix content_key (c # cs) \<and> CHR '']'' \<in> set (drop (length content_key) (c # cs))
          then Some (before_last (CHR '']'') (drop (length content_key) (c # cs)))
          else None)"

definition strip_lead :: "string \<Rightarrow> string" where
  "strip_lead l = (case l of [] \<Rightarrow> [] | c # cs \<Rightarrow> if c = dq then cs else l)"

definition strip_trail :: "string \<Rightarrow> string" where
  "strip_trail l = (if l \<noteq> [] \<and> last l = dq then butlast l else l)"

text \<open>Lines 102-107, the six \<^verbatim>\<open>sed\<close> of the first extraction.\<close>

definition primary_text :: "string \<Rightarrow> string" where
  \<open>primary_text LAST_LINE =
     (let s1 = concat (map (\<lambda>l. case sed_content l of None \<Rightarrow> [] | Some x \<Rightarrow> [x]) (echo LAST_LINE));
          s2 = map (subst_g 0 (''{"type":"text","text":"'' @ [bslash, CHR ''n'', dq]) [bslash, CHR ''n'']) s1;
          s3 = map (subst_g 0 ''},{"type":"text","text":"'' [bslash, CHR ''n'']) s2;
          s4 = map (subst_g 0 [bslash, dq] [dq]) s3;
          s5 = split_lines (stream_of (map (subst_g 0 [bslash, CHR ''n''] [nl]) s4));
          s6 = map (\<lambda>l. strip_trail (strip_lead l)) s5
      in cmdsubst (stream_of s6))\<close>

text \<open>The match of \<^verbatim>\<open>"text":"[^"]*"\<close> at the start of a text.\<close>

definition match_text :: "string \<Rightarrow> string option" where
  "match_text s =
     (if prefix text_key s then
        (case dropWhile (\<lambda>x. x \<noteq> dq) (drop (length text_key) s) of
           [] \<Rightarrow> None
         | q # r \<Rightarrow> Some (take (length s - length r) s))
      else None)"

text \<open>Lines 111-115, the fallback. Its \<^verbatim>\<open>|| echo ""\<close> adds an empty line when grep
  finds nothing, which the command substitution removes again.\<close>

definition fallback_text :: "string \<Rightarrow> string" where
  "fallback_text LAST_LINE =
     (let t1 = concat (map (grep_o match_text 0) (echo LAST_LINE));
          t2 = map (subst_g 0 text_key []) t1;
          t3 = map strip_trail t2;
          t4 = split_lines (stream_of (map (subst_g 0 [bslash, CHR ''n''] [nl]) t3));
          t5 = map (subst_g 0 [bslash, dq] [dq]) t4
      in cmdsubst (stream_of (if t1 = [] then [[]] else t5)))"

text \<open>Lines 71-98: the transcript file and its last line with an assistant role.\<close>

definition select_last_line :: "env \<Rightarrow> string \<Rightarrow> result + string" where
  "select_last_line e TRANSCRIPT_PATH =
     (case fs e TRANSCRIPT_PATH of
        None \<Rightarrow>
          Inl (stop_loop e TranscriptNotFound []
                 ([warn_sign @ ''  Ralph loop: Transcript file not found'']
                  @ echo (''   Expected: '' @ TRANSCRIPT_PATH)
                  @ [''   This is unusual and may indicate a Claude Code internal issue.'',
                     ''   Ralph loop is stopping.'']))
      | Some ts \<Rightarrow>
          (let ms = filter (has_infix role_pat) ts
           in if ms = []
              then Inl (stop_loop e NoAssistantMessages []
                     ([warn_sign @ ''  Ralph loop: No assistant messages found in transcript'']
                      @ echo (''   Transcript: '' @ TRANSCRIPT_PATH)
                      @ [''   This is unusual and may indicate a transcript format issue'',
                         ''   Ralph loop is stopping.'']))
              else (let LAST_LINE = cmdsubst (stream_of [last ms])
                    in if LAST_LINE = []
                       then Inl (stop_loop e LastLineEmpty []
                              [warn_sign @ ''  Ralph loop: Failed to extract last assistant message'',
                               ''   Ralph loop is stopping.''])
                       else Inr LAST_LINE)))"

text \<open>Lines 100-123: the text of that line, by the first extraction or the fallback.\<close>

definition extract_text :: "env \<Rightarrow> string \<Rightarrow> result + string" where
  "extract_text e LAST_LINE =
     (let LAST_OUTPUT = primary_text LAST_LINE;
          LAST_OUTPUT = (if LAST_OUTPUT = [] then fallback_text LAST_LINE else LAST_OUTPUT)
      in if LAST_OUTPUT = []
         then Inl (stop_loop e NoTextContent []
                [warn_sign @ ''  Ralph loop: Assistant message contained no text content'',
                 ''   Ralph loop is stopping.''])
         else Inr LAST_OUTPUT)"

definition last_output :: "env \<Rightarrow> string \<Rightarrow> result + string" where
  "last_output e TRANSCRIPT_PATH =
     then_do (select_last_line e TRANSCRIPT_PATH) (extract_text e)"

subsection \<open>Lines 125-137: the completion promise\<close>

definition promise_open :: string where
  "promise_open = ''<promise>''"

definition promise_close :: string where
  "promise_close = ''</promise>''"

text \<open>The match of \<^verbatim>\<open><promise>\([^<]*\)<\/promise>\<close> at the start of a text: its group.\<close>

definition promise_at :: "string \<Rightarrow> string option" where
  "promise_at s =
     (if prefix promise_open s
      then (let r = drop (length promise_open) s
            in if prefix promise_close (dropWhile (\<lambda>x. x \<noteq> CHR ''<'') r)
               then Some (takeWhile (\<lambda>x. x \<noteq> CHR ''<'') r)
               else None)
      else None)"

text \<open>\<^verbatim>\<open>sed -n 's/.*<promise>\([^<]*\)<\/promise>.*/\1/p'\<close> on one line: the leading
  \<^verbatim>\<open>.*\<close> is greedy, so the group is taken at the last position where the pair matches.\<close>

fun sed_promise :: "string \<Rightarrow> string option" where
  "sed_promise [] = None"
| "sed_promise (c # cs) =
     (case sed_promise cs of Some x \<Rightarrow> Some x | None \<Rightarrow> promise_at (c # cs))"

definition tr_nl_sp :: "string \<Rightarrow> string" where
  "tr_nl_sp s = map (\<lambda>c. if c = nl then sp else c) s"

text \<open>\<^verbatim>\<open>echo "$LAST_OUTPUT" | tr '\n' ' '\<close>: the value and the newline of
  \<^verbatim>\<open>echo\<close>, every newline turned into a space.\<close>

definition flatten :: "string \<Rightarrow> string" where
  "flatten LAST_OUTPUT = tr_nl_sp (LAST_OUTPUT @ [nl])"

text \<open>The payload: the group of the substitution on the flattened text, if it matches.\<close>

definition promise_payload :: "string \<Rightarrow> string option" where
  "promise_payload LAST_OUTPUT = sed_promise (flatten LAST_OUTPUT)"

text \<open>The lines that \<^verbatim>\<open>sed -n '...p'\<close> prints, reading what \<^verbatim>\<open>tr\<close> wrote.\<close>

definition promise_lines :: "string \<Rightarrow> string list" where
  "promise_lines LAST_OUTPUT =
     concat (map (\<lambda>l. case sed_promise l of None \<Rightarrow> [] | Some x \<Rightarrow> [x])
       (split_lines (flatten LAST_OUTPUT)))"

text \<open>\<^verbatim>\<open>PROMISE_TEXT=$(... | tr -d '[:space:]' || echo "")\<close>\<close>

definition tr_d_space :: "string \<Rightarrow> string" where
  "tr_d_space s = filter (\<lambda>c. \<not> is_space c) s"

definition promise_text :: "string \<Rightarrow> string" where
  "promise_text LAST_OUTPUT = cmdsubst (tr_d_space (stream_of (promise_lines LAST_OUTPUT)))"

text \<open>\<^verbatim>\<open>[[ -n "$PROMISE_TEXT" ]] && [[ "$PROMISE_TEXT" = "${COMPLETION_PROMISE// /}" ]]\<close>\<close>

definition promise_matches :: "string \<Rightarrow> string \<Rightarrow> bool" where
  "promise_matches LAST_OUTPUT COMPLETION_PROMISE =
     (promise_text LAST_OUTPUT \<noteq> [] \<and>
      promise_text LAST_OUTPUT = filter (\<lambda>c. c \<noteq> sp) COMPLETION_PROMISE)"

definition promise_set :: "string \<Rightarrow> bool" where
  "promise_set COMPLETION_PROMISE = (COMPLETION_PROMISE \<noteq> ''null'' \<and> COMPLETION_PROMISE \<noteq> [])"

definition detected_msg :: "string \<Rightarrow> string list" where
  "detected_msg COMPLETION_PROMISE =
     echo (check_sign @ '' Ralph loop: Detected <promise>'' @ COMPLETION_PROMISE @ ''</promise>'')"

definition check_promise :: "env \<Rightarrow> string \<Rightarrow> string \<Rightarrow> result + unit" where
  "check_promise e COMPLETION_PROMISE LAST_OUTPUT =
     (if promise_set COMPLETION_PROMISE \<and> promise_matches LAST_OUTPUT COMPLETION_PROMISE
      then Inl (stop_loop e PromiseDetected (detected_msg COMPLETION_PROMISE) [])
      else Inr ())"

subsection \<open>Lines 139-192: the continuation\<close>

text \<open>\<^verbatim>\<open>NEXT_ITERATION=$((ITERATION + 1))\<close> (line 140). When the operand is not a valid
  constant the shell reports the error and gives up this one command: the variable
  stays unset (\<open>None\<close>) and the script goes on with line 144.\<close>

definition next_iteration :: "string \<Rightarrow> string option" where
  "next_iteration ITERATION =
     (case bash_number ITERATION of
        None \<Rightarrow> None
      | Some i \<Rightarrow> Some (show_int (wrap64 (i + 1))))"

text \<open>\<^verbatim>\<open>awk '/^---$/{i++; next} i>=2'\<close>: every delimiter line is counted and skipped, the
  other lines are printed once two delimiters were seen.\<close>

fun awk_body :: "nat \<Rightarrow> string list \<Rightarrow> string list" where
  "awk_body i [] = []"
| "awk_body i (l # ls) =
     (if l = ''---'' then awk_body (i + 1) ls
      else if 2 \<le> i then l # awk_body i ls
      else awk_body i ls)"

definition prompt_text :: "string list \<Rightarrow> string" where
  "prompt_text sf = cmdsubst (stream_of (awk_body 0 sf))"

text \<open>\<^verbatim>\<open>sed "s/^iteration: .*/iteration: $NEXT_ITERATION/"\<close> on one line.\<close>

definition sed_iteration :: "string \<Rightarrow> string \<Rightarrow> string" where
  "sed_iteration NEXT_ITERATION l =
     (if prefix ''iteration: '' l then ''iteration: '' @ NEXT_ITERATION else l)"

definition mv :: "string \<Rightarrow> string \<Rightarrow> (string \<rightharpoonup> string list) \<Rightarrow> (string \<rightharpoonup> string list)" where
  "mv src dst m = (m(dst := m src))(src := None)"

definition subst_char :: "char \<Rightarrow> string \<Rightarrow> string \<Rightarrow> string" where
  "subst_char c r s = concat (map (\<lambda>x. if x = c then r else [x]) s)"

text \<open>The function \<^verbatim>\<open>escape_json\<close> of the script, its five replacements in order.\<close>

definition escape_json :: "string \<Rightarrow> string" where
  "escape_json s =
     subst_char (CHR 0x09) [bslash, CHR ''t'']
       (subst_char (CHR 0x0D) [bslash, CHR ''r'']
         (subst_char nl [bslash, CHR ''n'']
           (subst_char dq [bslash, dq]
             (subst_char bslash [bslash, bslash] s))))"

definition system_msg :: "string \<Rightarrow> string \<Rightarrow> string" where
  "system_msg NEXT_ITERATION COMPLETION_PROMISE =
     (if promise_set COMPLETION_PROMISE
      then loop_sign @ '' Ralph iteration '' @ NEXT_ITERATION @ '' | To stop: output <promise>''
           @ COMPLETION_PROMISE
           @ ''</promise> (ONLY when statement is TRUE - do not lie to exit!)''
      else loop_sign @ '' Ralph iteration '' @ NEXT_ITERATION
           @ '' | No completion promise set - loop runs infinitely'')"

definition block_json :: "string \<Rightarrow> string \<Rightarrow> string" where
  \<open>block_json PROMPT_ESCAPED MSG_ESCAPED =
     ''{"decision":"block","reason":"'' @ PROMPT_ESCAPED @ ''","systemMessage":"''
     @ MSG_ESCAPED @ ''"}''\<close>

definition no_prompt_msg :: "string list" where
  "no_prompt_msg =
     [warn_sign @ ''  Ralph loop: State file corrupted or incomplete'',
      ''   File: '' @ RALPH_STATE_FILE,
      ''   Problem: No prompt text found'',
      [],
      ''   This usually means:'',
      ''     '' @ bullet @ '' State file was manually edited'',
      ''     '' @ bullet @ '' File was corrupted during writing'',
      [],
      ''   Ralph loop is stopping. Run /ralph-loop again to start fresh.'']"

text \<open>Lines 144-192. Where \<^verbatim>\<open>NEXT_ITERATION\<close> is unset, its expansion in the command of
  line 163 ends the script under \<^verbatim>\<open>set -u\<close> with status 1, before the redirection to
  the temporary file is opened.\<close>

definition continue_loop :: "env \<Rightarrow> string list \<Rightarrow> string option \<Rightarrow> string \<Rightarrow> result" where
  "continue_loop e sf NEXT COMPLETION_PROMISE =
     (let PROMPT_TEXT = prompt_text sf
      in if PROMPT_TEXT = [] then stop_loop e NoPromptText [] no_prompt_msg
         else
           (case NEXT of
              None \<Rightarrow> errexit e
            | Some NEXT_ITERATION \<Rightarrow>
               (let TEMP_FILE = RALPH_STATE_FILE @ ''.tmp.'' @ show_nat (pid e);
                    written = (fs e)(TEMP_FILE \<mapsto> map (sed_iteration NEXT_ITERATION) sf);
                    SYSTEM_MSG = system_msg NEXT_ITERATION COMPLETION_PROMISE;
                    PROMPT_ESCAPED = cmdsubst (escape_json PROMPT_TEXT);
                    MSG_ESCAPED = cmdsubst (escape_json SYSTEM_MSG)
                in \<lparr>exit_code = 0,
                    out = split_lines (block_json PROMPT_ESCAPED MSG_ESCAPED @ [nl]),
                    err = [],
                    files = mv TEMP_FILE RALPH_STATE_FILE written,
                    exit_at = Blocked\<rparr>)))"

subsection \<open>The script\<close>

text \<open>Lines 60-140, after the cap check: the transcript, the promise and the value of
  \<^verbatim>\<open>NEXT_ITERATION\<close>.\<close>

definition transcript_checks ::
  "env \<Rightarrow> string list \<Rightarrow> string \<Rightarrow> string
     \<Rightarrow> result + (string list \<times> string option \<times> string)" where
  "transcript_checks e sf ITERATION COMPLETION_PROMISE =
     then_do (transcript_path e) (\<lambda>TRANSCRIPT_PATH.
     then_do (last_output e TRANSCRIPT_PATH) (\<lambda>LAST_OUTPUT.
     then_do (check_promise e COMPLETION_PROMISE LAST_OUTPUT) (\<lambda>_.
       Inr (sf, next_iteration ITERATION, COMPLETION_PROMISE))))"

text \<open>Everything before the prompt is read (lines 12-140): the state file, the value of
  \<^verbatim>\<open>NEXT_ITERATION\<close> if it was set, and the promise, unless the script has ended.\<close>

definition checks :: "env \<Rightarrow> result + (string list \<times> string option \<times> string)" where
  "checks e =
     then_do (load_state e) (\<lambda>sf.
       case parse_fields sf of
         None \<Rightarrow> Inl (errexit e)
       | Some (ITERATION, MAX_ITERATIONS, COMPLETION_PROMISE) \<Rightarrow>
           then_do (validate e ITERATION MAX_ITERATIONS) (\<lambda>_.
           then_do (check_cap e ITERATION MAX_ITERATIONS) (\<lambda>_.
             transcript_checks e sf ITERATION COMPLETION_PROMISE)))"

definition stop_hook :: "env \<Rightarrow> result" where
  "stop_hook e =
     (case checks e of
        Inl r \<Rightarrow> r
      | Inr (sf, NEXT, COMPLETION_PROMISE) \<Rightarrow>
          continue_loop e sf NEXT COMPLETION_PROMISE)"

subsection \<open>The specification's readings, for comparison\<close>

text \<open>These follow the words of the specification, not the script.\<close>

text \<open>The text before and after the first occurrence of a token.\<close>

fun split_at :: "string \<Rightarrow> string \<Rightarrow> (string \<times> string) option" where
  "split_at p [] = (if p = [] then Some ([], []) else None)"
| "split_at p (c # cs) =
     (if prefix p (c # cs) then Some ([], drop (length p) (c # cs))
      else (case split_at p cs of None \<Rightarrow> None | Some (a, b) \<Rightarrow> Some (c # a, b)))"

text \<open>Completion Detector: "flattens text by replacing all newline characters with a
  single space, then extracts the payload of the first occurrence of a marker pair,
  specifically the content strictly between a literal opening marker token and the
  corresponding literal closing marker token (non-greedy - stops at the first closing
  token)".\<close>

definition spec_first_payload :: "string \<Rightarrow> string option" where
  "spec_first_payload txt =
     (case split_at promise_open (tr_nl_sp txt) of
        None \<Rightarrow> None
      | Some (before, rest) \<Rightarrow>
          (case split_at promise_close rest of
             None \<Rightarrow> None
           | Some (payload, after) \<Rightarrow> Some payload))"

text \<open>State Store: "extractBody returns all content strictly after the second
  occurrence of the delimiter line".\<close>

fun after_delimiters :: "nat \<Rightarrow> string list \<Rightarrow> string list" where
  "after_delimiters 0 ls = ls"
| "after_delimiters (Suc n) [] = []"
| "after_delimiters (Suc n) (l # ls) =
     (if l = ''---'' then after_delimiters n ls else after_delimiters (Suc n) ls)"

definition spec_extractBody :: "string list \<Rightarrow> string list" where
  "spec_extractBody raw = after_delimiters 2 raw"

text \<open>TranscriptEntry: "one per line of the transcript; a structured record carrying at
  least a role and a content field holding an ordered sequence of content blocks". An
  entry with one text block, and its JSON text with the white space \<open>ws\<close> after each
  colon, which JSON allows between tokens (for a role and a text without quotes or
  backslashes).\<close>

record transcript_entry =
  role :: string
  block_text :: string

definition render_entry :: "string \<Rightarrow> transcript_entry \<Rightarrow> string" where
  \<open>render_entry ws en =
     ''{"role":'' @ ws @ [dq] @ role en @ [dq] @ '',"content":'' @ ws @ ''[{"type":'' @ ws
     @ ''"text","text":'' @ ws @ [dq] @ block_text en @ ''"}]}''\<close>

subsection \<open>Example runs\<close>

definition hook_input :: string where
  \<open>hook_input = ''{"session_id":"s1","transcript_path":"/tmp/t.jsonl","hook_event_name":"Stop"}''\<close>

definition state_file :: "string \<Rightarrow> string \<Rightarrow> string \<Rightarrow> string list \<Rightarrow> string list" where
  "state_file it mx pr body =
     [''---'', ''iteration: '' @ it, ''max_iterations: '' @ mx, ''completion_promise: '' @ pr,
      ''---''] @ body"

definition user_line :: string where
  \<open>user_line = ''{"role":"user","content":[{"type":"text","text":"go on"}]}''\<close>

definition assistant_line :: "string \<Rightarrow> string" where
  \<open>assistant_line txt = ''{"role":"assistant","content":[{"type":"text","text":"'' @ txt @ ''"}]}''\<close>

definition run_env :: "string \<Rightarrow> string list \<Rightarrow> string list \<Rightarrow> env" where
  "run_env inp sf ts =
     \<lparr>stdin = inp, fs = [RALPH_STATE_FILE \<mapsto> sf, ''/tmp/t.jsonl'' \<mapsto> ts], pid = 4242\<rparr>"

text \<open>Scenario A of the specification: iteration 2 of 5, promise "ready", no promise tag
  in the last assistant turn.\<close>

definition sf_A :: "string list" where
  \<open>sf_A = state_file ''2'' ''5'' ''"ready"'' [''Fix the bug'']\<close>

definition env_A :: env where
  "env_A = run_env hook_input sf_A [user_line, assistant_line ''Still working on it'']"

text \<open>Scenario B: iteration 5 of 5.\<close>

definition sf_B :: "string list" where
  \<open>sf_B = state_file ''5'' ''5'' ''"ready"'' [''Fix the bug'']\<close>

definition env_B :: env where
  "env_B = run_env hook_input sf_B [user_line, assistant_line ''Still working on it'']"

text \<open>A state file without the \<^verbatim>\<open>iteration:\<close> line.\<close>

definition sf_no_iteration :: "string list" where
  "sf_no_iteration =
     [''---'', ''max_iterations: 5'', ''completion_promise: null'', ''---'', ''Fix the bug'']"

definition env_no_iteration :: env where
  "env_no_iteration =
     run_env hook_input sf_no_iteration [user_line, assistant_line ''Still working on it'']"

text \<open>A hook input without a \<^verbatim>\<open>transcript_path\<close> field.\<close>

definition env_no_path :: env where
  \<open>env_no_path =
     run_env ''{"session_id":"s1"}'' sf_A [user_line, assistant_line ''Still working on it'']\<close>

text \<open>A prompt with a line that begins with \<^verbatim>\<open>iteration: \<close>.\<close>

definition sf_iter_body :: "string list" where
  "sf_iter_body = state_file ''2'' ''5'' ''null'' [''Improve the solver.'', ''iteration: refine the last answer'']"

definition env_iter_body :: env where
  "env_iter_body =
     run_env hook_input sf_iter_body [user_line, assistant_line ''Still working on it'']"

text \<open>A prompt with a delimiter line of its own.\<close>

definition sf_rule_body :: "string list" where
  "sf_rule_body = state_file ''2'' ''5'' ''null'' [''Step one'', ''---'', ''Step two'']"

definition env_rule_body :: env where
  "env_rule_body =
     run_env hook_input sf_rule_body [user_line, assistant_line ''Still working on it'']"

text \<open>State files without a prompt: the loop would continue, the cap is reached, the
  promise is given.\<close>

definition sf_empty :: "string list" where
  \<open>sf_empty = state_file ''2'' ''5'' ''"ready"'' []\<close>

definition env_empty :: env where
  "env_empty = run_env hook_input sf_empty [user_line, assistant_line ''Still working on it'']"

definition sf_empty_cap :: "string list" where
  \<open>sf_empty_cap = state_file ''5'' ''5'' ''"ready"'' []\<close>

definition env_empty_cap :: env where
  "env_empty_cap =
     run_env hook_input sf_empty_cap [user_line, assistant_line ''Still working on it'']"

definition env_empty_done :: env where
  "env_empty_done =
     run_env hook_input sf_empty [user_line, assistant_line ''All set. <promise>ready</promise>'']"

text \<open>The promise \<^verbatim>\<open>null\<close>, and an assistant turn that gives it.\<close>

definition sf_null :: "string list" where
  "sf_null = state_file ''2'' ''0'' ''null'' [''Fix the bug'']"

definition env_null :: env where
  "env_null = run_env hook_input sf_null [user_line, assistant_line ''<promise>null</promise>'']"

text \<open>Texts with promise tags.\<close>

definition two_pairs :: string where
  "two_pairs = ''<promise>a</promise> then <promise>b</promise>''"

definition spaced_done :: string where
  "spaced_done = ''All set. <promise> done </promise>''"

definition blank_pair :: string where
  "blank_pair = ''<promise> </promise>''"

definition tab_promise :: string where
  "tab_promise = ''a'' @ [CHR 0x09] @ ''b''"

definition tab_pair :: string where
  "tab_pair = ''<promise>'' @ tab_promise @ ''</promise>''"

text \<open>A state file whose promise is one space, between quotes.\<close>

definition sf_blank :: "string list" where
  \<open>sf_blank = state_file ''2'' ''5'' ''" "'' [''Fix the bug'']\<close>

text \<open>A transcript with two assistant turns, and one whose only assistant entry is
  written with a space after each colon.\<close>

definition transcript_two :: "string list" where
  "transcript_two =
     [user_line, assistant_line ''first answer'', user_line, assistant_line ''second answer'',
      user_line]"

definition entry_done :: transcript_entry where
  "entry_done = \<lparr>role = ''assistant'', block_text = ''Done''\<rparr>"

definition env_spaced :: env where
  "env_spaced = run_env hook_input sf_A [user_line, render_entry '' '' entry_done]"

definition env_compact :: env where
  "env_compact = run_env hook_input sf_A [user_line, render_entry [] entry_done]"

text \<open>Scenarios C to F of the specification: the promise is given; the iteration field is
  not a number; there is no state file; the transcript file does not exist.\<close>

definition env_C :: env where
  "env_C = run_env hook_input sf_A [user_line, assistant_line ''All set. <promise>ready</promise>'']"

definition sf_D :: "string list" where
  \<open>sf_D = state_file ''abc'' ''5'' ''"ready"'' [''Fix the bug'']\<close>

definition env_D :: env where
  "env_D = run_env hook_input sf_D [user_line, assistant_line ''Still working on it'']"

definition env_E :: env where
  "env_E = \<lparr>stdin = hook_input,
            fs = [''/tmp/t.jsonl'' \<mapsto> [user_line, assistant_line ''Still working on it'']],
            pid = 4242\<rparr>"

definition env_F :: env where
  \<open>env_F = run_env ''{"transcript_path":"/tmp/absent.jsonl"}'' sf_A
             [user_line, assistant_line ''Still working on it'']\<close>

text \<open>A transcript path that is present and empty, a transcript without an assistant
  line, and an assistant line without text.\<close>

definition env_empty_path :: env where
  \<open>env_empty_path = run_env ''{"transcript_path":""}'' sf_A
                      [user_line, assistant_line ''Still working on it'']\<close>

definition env_no_assistant :: env where
  "env_no_assistant = run_env hook_input sf_A [user_line]"

definition env_no_text :: env where
  \<open>env_no_text = run_env hook_input sf_A [user_line, ''{"role":"assistant","content":[]}'']\<close>

text \<open>Counters with a leading zero, which the validation of lines 31 and 42 accepts: the
  cap 08 at iteration 9, the cap 010 at iteration 8, and the iteration 08 without and
  with a prompt.\<close>

definition sf_cap_08 :: "string list" where
  "sf_cap_08 = state_file ''9'' ''08'' ''null'' [''Fix the bug'']"

definition env_cap_08 :: env where
  "env_cap_08 = run_env hook_input sf_cap_08 [user_line, assistant_line ''Still working on it'']"

definition sf_cap_010 :: "string list" where
  "sf_cap_010 = state_file ''8'' ''010'' ''null'' [''Fix the bug'']"

definition env_cap_010 :: env where
  "env_cap_010 = run_env hook_input sf_cap_010 [user_line, assistant_line ''Still working on it'']"






section \<open>Properties of the model\<close>

lemma digit_val_digit_char: "d < 10 \<Longrightarrow> digit_val (digit_char d) = d"
  by (simp add: digit_val_def digit_char_def)

lemma is_digit_digit_char: "d < 10 \<Longrightarrow> is_digit (digit_char d)"
  by (simp add: is_digit_def digit_char_def)

lemma digit_char_0: "digit_char 0 = CHR ''0''"
  by (simp add: digit_char_def char_of_eq_iff)

lemma digit_char_zero_iff: "d < 10 \<Longrightarrow> digit_char d = CHR ''0'' \<longleftrightarrow> d = 0"
proof -
  assume d: "d < 10"
  note z = digit_char_0
  have "digit_char d = CHR ''0'' \<Longrightarrow> d = 0"
  proof -
    assume "digit_char d = CHR ''0''"
    then have "digit_val (digit_char d) = digit_val (CHR ''0'')" by simp
    with d show "d = 0" by (simp add: digit_val_digit_char) (simp add: digit_val_def)
  qed
  with z show ?thesis by auto
qed

lemma show_nat_nonempty: "show_nat n \<noteq> []"
  by (subst show_nat.simps) simp

lemma show_nat_digits: "list_all is_digit (show_nat n)"
proof (induction n rule: show_nat.induct)
  case (1 n)
  show ?case
  proof (cases "n < 10")
    case True
    then show ?thesis by (subst show_nat.simps) (simp add: is_digit_digit_char)
  next
    case False
    with 1 show ?thesis by (subst show_nat.simps) (simp add: is_digit_digit_char)
  qed
qed

lemma is_number_show_nat: "is_number (show_nat n)"
  by (simp add: is_number_def show_nat_nonempty show_nat_digits)

lemma radix_val_snoc: "radix_val b (xs @ [c]) = radix_val b xs * b + digit_val c"
  by (simp add: radix_val_def)

lemma radix_val_show_nat: "radix_val 10 (show_nat n) = n"
proof (induction n rule: show_nat.induct)
  case (1 n)
  show ?case
  proof (cases "n < 10")
    case True
    then show ?thesis
      by (subst show_nat.simps) (simp add: radix_val_def digit_val_digit_char)
  next
    case False
    with 1 have "radix_val 10 (show_nat (n div 10)) = n div 10" by simp
    with False show ?thesis
      by (subst show_nat.simps) (simp add: radix_val_snoc digit_val_digit_char)
  qed
qed

lemma hd_show_nat: "0 < n \<Longrightarrow> hd (show_nat n) \<noteq> CHR ''0''"
proof (induction n rule: show_nat.induct)
  case (1 n)
  show ?case
  proof (cases "n < 10")
    case True
    with 1(2) show ?thesis
      by (subst show_nat.simps) (simp add: digit_char_zero_iff)
  next
    case False
    then have "0 < n div 10" by simp
    with 1 False have "hd (show_nat (n div 10)) \<noteq> CHR ''0''" by simp
    with False show ?thesis
      by (subst show_nat.simps) (simp add: show_nat_nonempty)
  qed
qed

lemma show_nat_0: "show_nat 0 = ''0''"
  by (subst show_nat.simps) (simp add: digit_char_0)

lemma wrap64_small: "0 \<le> x \<Longrightarrow> x < 2 ^ 63 \<Longrightarrow> wrap64 x = x"
  by (simp add: wrap64_def)

lemma bash_number_show_nat: "n < 2 ^ 63 \<Longrightarrow> bash_number (show_nat n) = Some (int n)"
proof (cases "n = 0")
  case True
  then show ?thesis
    by (simp add: show_nat_0 bash_number_def radix_val_def digit_val_def wrap64_def)
next
  case False
  assume n: "n < 2 ^ 63"
  from False have "hd (show_nat n) \<noteq> CHR ''0''" by (simp add: hd_show_nat)
  moreover have "wrap64 (int n) = int n"
  proof (rule wrap64_small)
    show "0 \<le> int n" by simp
    from n have "int n < int (2 ^ 63)" by (simp only: of_nat_less_iff)
    then show "int n < 2 ^ 63" by simp
  qed
  ultimately show ?thesis
    by (simp add: bash_number_def radix_val_show_nat)
qed

lemma cap_reached_show_nat:
  "i < 2 ^ 63 \<Longrightarrow> n < 2 ^ 63 \<Longrightarrow> cap_reached (show_nat i) (show_nat n) \<longleftrightarrow> 0 < n \<and> n \<le> i"
  by (simp add: cap_reached_def bash_number_show_nat)

lemma then_do_Inl: "then_do m f = Inl r \<longleftrightarrow> m = Inl r \<or> (\<exists>x. m = Inr x \<and> f x = Inl r)"
  by (cases m) (simp_all add: then_do_def)

lemma then_do_Inr: "then_do m f = Inr y \<longleftrightarrow> (\<exists>x. m = Inr x \<and> f x = Inr y)"
  by (cases m) (simp_all add: then_do_def)

lemma exit_at_stop_loop: "exit_at (stop_loop e p a b) = p"
  by (simp add: stop_loop_def)

lemma exit_at_errexit: "exit_at (errexit e) = ErrExit"
  by (simp add: errexit_def)

lemma validate_Inl:
  "validate e it mx = Inl r \<Longrightarrow> exit_at r = CorruptIteration \<or> exit_at r = CorruptMaxIterations"
  by (auto simp: validate_def exit_at_stop_loop split: if_splits)

lemma check_cap_Inl: "check_cap e it mx = Inl r \<Longrightarrow> exit_at r = MaxIterationsReached"
  by (auto simp: check_cap_def exit_at_stop_loop split: if_splits)

lemma transcript_path_Inl:
  "transcript_path e = Inl r \<Longrightarrow> exit_at r = ErrExit \<or> exit_at r = NoTranscriptPath"
  by (auto simp: transcript_path_def Let_def exit_at_stop_loop exit_at_errexit split: if_splits)

lemma select_last_line_Inl:
  "select_last_line e tp = Inl r \<Longrightarrow>
     exit_at r = TranscriptNotFound \<or> exit_at r = NoAssistantMessages \<or> exit_at r = LastLineEmpty"
  by (auto simp: select_last_line_def Let_def exit_at_stop_loop split: option.splits if_splits)

lemma extract_text_Inl: "extract_text e l = Inl r \<Longrightarrow> exit_at r = NoTextContent"
  by (auto simp: extract_text_def Let_def exit_at_stop_loop split: if_splits)

lemma last_output_Inl:
  "last_output e tp = Inl r \<Longrightarrow>
     exit_at r = TranscriptNotFound \<or> exit_at r = NoAssistantMessages \<or> exit_at r = LastLineEmpty
     \<or> exit_at r = NoTextContent"
  by (auto simp: last_output_def then_do_Inl dest!: select_last_line_Inl extract_text_Inl)

lemma check_promise_Inl: "check_promise e p lo = Inl r \<Longrightarrow> exit_at r = PromiseDetected"
  by (auto simp: check_promise_def exit_at_stop_loop split: if_splits)

lemma transcript_checks_Inl:
  "transcript_checks e sf it p = Inl r \<Longrightarrow>
     exit_at r \<in> {ErrExit, NoTranscriptPath, TranscriptNotFound, NoAssistantMessages,
                  LastLineEmpty, NoTextContent, PromiseDetected}"
  by (auto simp: transcript_checks_def then_do_Inl
           dest!: transcript_path_Inl last_output_Inl check_promise_Inl)

lemma exit_at_continue_loop:
  "exit_at (continue_loop e sf n p) =
     (if prompt_text sf = [] then NoPromptText else if n = None then ErrExit else Blocked)"
  by (simp add: continue_loop_def Let_def exit_at_stop_loop exit_at_errexit split: option.splits)

lemma checks_parsed:
  "fs e RALPH_STATE_FILE = Some sf \<Longrightarrow> parse_fields sf = Some (it, mx, p) \<Longrightarrow>
   checks e =
     then_do (validate e it mx) (\<lambda>_. then_do (check_cap e it mx) (\<lambda>_. transcript_checks e sf it p))"
  by (simp add: checks_def load_state_def then_do_def)

lemma checks_valid:
  "fs e RALPH_STATE_FILE = Some sf \<Longrightarrow> parse_fields sf = Some (it, mx, p) \<Longrightarrow>
   is_number it \<Longrightarrow> is_number mx \<Longrightarrow>
   checks e =
     (if cap_reached it mx then Inl (stop_loop e MaxIterationsReached (cap_msg mx) [])
      else transcript_checks e sf it p)"
  by (simp add: checks_parsed validate_def check_cap_def then_do_def)

lemma transcript_checks_Inr:
  "transcript_checks e sf it p = Inr v \<Longrightarrow> v = (sf, next_iteration it, p)"
  by (auto simp: transcript_checks_def then_do_Inr)

lemma stop_hook_not_cap:
  assumes "fs e RALPH_STATE_FILE = Some sf" "parse_fields sf = Some (it, mx, p)"
    "is_number it" "is_number mx" "\<not> cap_reached it mx"
  shows "exit_at (stop_hook e) \<noteq> MaxIterationsReached"
proof (cases "transcript_checks e sf it p")
  case (Inl r)
  with assms have "stop_hook e = r" by (simp add: stop_hook_def checks_valid)
  with transcript_checks_Inl[OF Inl] show ?thesis by auto
next
  case (Inr v)
  then have "v = (sf, next_iteration it, p)" by (rule transcript_checks_Inr)
  with Inr assms have "stop_hook e = continue_loop e sf (next_iteration it) p"
    by (simp add: stop_hook_def checks_valid)
  then show ?thesis by (simp add: exit_at_continue_loop)
qed

lemma stop_hook_cap:
  assumes "fs e RALPH_STATE_FILE = Some sf" "parse_fields sf = Some (it, mx, p)"
    "is_number it" "is_number mx" "cap_reached it mx"
  shows "stop_hook e = stop_loop e MaxIterationsReached (cap_msg mx) []"
  using assms by (simp add: stop_hook_def checks_valid)

lemma checks_Inl:
  "checks e = Inl r \<Longrightarrow> exit_at r \<noteq> NoPromptText \<and> exit_at r \<noteq> Blocked"
  by (auto simp: checks_def then_do_Inl load_state_def no_loop_def exit_at_errexit
           split: option.splits
           dest!: validate_Inl check_cap_Inl transcript_checks_Inl)

lemma stop_hook_Inr:
  "checks e = Inr (sf, n, p) \<Longrightarrow> stop_hook e = continue_loop e sf n p"
  by (simp add: stop_hook_def)

lemma stop_hook_Inl: "checks e = Inl r \<Longrightarrow> stop_hook e = r"
  by (simp add: stop_hook_def)

lemma checks_Inr_state:
  "checks e = Inr (sf', n, p) \<Longrightarrow> fs e RALPH_STATE_FILE = Some sf'"
  by (auto simp: checks_def then_do_Inr load_state_def split: option.splits
           dest!: transcript_checks_Inr)

lemma no_prompt_iff:
  "exit_at (stop_hook e) = NoPromptText \<longleftrightarrow> (\<exists>sf n p. checks e = Inr (sf, n, p) \<and> prompt_text sf = [])"
proof (cases "checks e")
  case (Inl r)
  then show ?thesis using checks_Inl[OF Inl] by (simp add: stop_hook_Inl)
next
  case (Inr v)
  obtain sf n p where "v = (sf, n, p)" by (cases v)
  with Inr show ?thesis by (simp add: stop_hook_Inr exit_at_continue_loop)
qed

lemma blocked_iff:
  "exit_at (stop_hook e) = Blocked \<longleftrightarrow>
     (\<exists>sf n p. checks e = Inr (sf, Some n, p) \<and> prompt_text sf \<noteq> [])"
proof (cases "checks e")
  case (Inl r)
  then show ?thesis using checks_Inl[OF Inl] by (simp add: stop_hook_Inl)
next
  case (Inr v)
  obtain sf n p where "v = (sf, n, p)" by (cases v)
  with Inr show ?thesis by (simp add: stop_hook_Inr exit_at_continue_loop)
qed

lemma stop_hook_promise:
  assumes "fs e RALPH_STATE_FILE = Some sf" "parse_fields sf = Some (it, mx, p)"
    "is_number it" "is_number mx" "\<not> cap_reached it mx"
    "transcript_path e = Inr tp" "last_output e tp = Inr lo"
    "promise_set p" "promise_matches lo p"
  shows "stop_hook e = stop_loop e PromiseDetected (detected_msg p) []"
  using assms
  by (simp add: stop_hook_def checks_valid transcript_checks_def then_do_def check_promise_def)

lemma check_promise_unset: "\<not> promise_set p \<Longrightarrow> check_promise e p lo = Inr ()"
  by (simp add: check_promise_def)

lemma transcript_checks_unset_Inl:
  "transcript_checks e sf it p = Inl r \<Longrightarrow> \<not> promise_set p \<Longrightarrow> exit_at r \<noteq> PromiseDetected"
  by (auto simp: transcript_checks_def then_do_Inl check_promise_unset
           dest!: transcript_path_Inl last_output_Inl)

lemma transcript_checks_next:
  "transcript_checks e sf it p = Inr (sf', Some n, p') \<Longrightarrow>
     \<exists>i. bash_number it = Some i \<and> n = show_int (wrap64 (i + 1))"
  by (auto simp: transcript_checks_def then_do_Inr next_iteration_def split: option.splits)

lemma out_continue_loop:
  "prompt_text sf \<noteq> [] \<Longrightarrow>
   out (continue_loop e sf (Some n) p) =
     split_lines (block_json (cmdsubst (escape_json (prompt_text sf)))
                     (cmdsubst (escape_json (system_msg n p))) @ [nl])"
  by (simp add: continue_loop_def Let_def)

lemma lines_from_no_nl:
  "nl \<notin> set s \<Longrightarrow> lines_from cur s = (if cur @ s = [] then [] else [cur @ s])"
  by (induction s arbitrary: cur) auto

lemma split_lines_single: "nl \<notin> set s \<Longrightarrow> s \<noteq> [] \<Longrightarrow> split_lines s = [s]"
  by (simp add: split_lines_def lines_from_no_nl)

lemma cmdsubst_no_nl: "nl \<notin> set s \<Longrightarrow> cmdsubst s = s"
proof -
  assume "nl \<notin> set s"
  then have "dropWhile (\<lambda>c. c = nl) (rev s) = rev s"
    by (cases "rev s") (auto simp: dropWhile_eq_self_iff)
  then show ?thesis by (simp add: cmdsubst_def)
qed

lemma cmdsubst_snoc_nl: "cmdsubst (s @ [nl]) = cmdsubst s"
  by (simp add: cmdsubst_def)

lemma flatten_no_nl: "nl \<notin> set (flatten t)"
  by (auto simp: flatten_def tr_nl_sp_def sp_def nl_def)

lemma flatten_nonempty: "flatten t \<noteq> []"
  by (simp add: flatten_def tr_nl_sp_def)

lemma flatten_eq: "flatten t = map (\<lambda>c. if c = nl then sp else c) t @ [sp]"
  by (simp add: flatten_def tr_nl_sp_def)

lemma promise_lines_payload:
  "promise_lines t = (case promise_payload t of None \<Rightarrow> [] | Some x \<Rightarrow> [x])"
  by (simp add: promise_lines_def promise_payload_def split_lines_single flatten_no_nl flatten_nonempty)

lemma tr_d_space_no_nl: "nl \<notin> set (tr_d_space s)"
  by (auto simp: tr_d_space_def is_space_def)

lemma tr_d_space_append: "tr_d_space (a @ b) = tr_d_space a @ tr_d_space b"
  by (simp add: tr_d_space_def)

lemma tr_d_space_nl: "tr_d_space [nl] = []"
  by (simp add: tr_d_space_def is_space_def)

lemma promise_text_payload:
  "promise_text t = (case promise_payload t of None \<Rightarrow> [] | Some x \<Rightarrow> tr_d_space x)"
proof -
  have "promise_text t = tr_d_space (stream_of (promise_lines t))"
    by (simp add: promise_text_def cmdsubst_no_nl tr_d_space_no_nl)
  then show ?thesis
    by (simp add: promise_lines_payload stream_of_def tr_d_space_append tr_d_space_nl
             split: option.splits) (simp add: tr_d_space_def)
qed

lemma is_space_sp: "is_space sp"
  by (simp add: is_space_def)

lemma spaces_only_norm:
  assumes "\<forall>c\<in>set p. is_space c \<longrightarrow> c = sp"
  shows "filter (\<lambda>c. c \<noteq> sp) p = tr_d_space p"
  unfolding tr_d_space_def
proof (rule filter_cong[OF refl])
  fix c assume "c \<in> set p"
  with assms have "is_space c \<longrightarrow> c = sp" by blast
  then show "(c \<noteq> sp) = (\<not> is_space c)" using is_space_sp by blast
qed

lemma promise_at_Some:
  "promise_at s = Some x \<longleftrightarrow>
     (\<exists>post. s = promise_open @ x @ promise_close @ post \<and> CHR ''<'' \<notin> set x)"
proof
  assume a: "promise_at s = Some x"
  then have p: "prefix promise_open s" by (auto simp: promise_at_def split: if_splits)
  define r where "r = drop (length promise_open) s"
  from p have s: "s = promise_open @ r" by (auto simp: r_def prefix_def)
  from a p have c: "prefix promise_close (dropWhile (\<lambda>x. x \<noteq> CHR ''<'') r)"
    and x: "x = takeWhile (\<lambda>x. x \<noteq> CHR ''<'') r"
    by (auto simp: promise_at_def Let_def r_def split: if_splits)
  from c obtain post where "dropWhile (\<lambda>x. x \<noteq> CHR ''<'') r = promise_close @ post"
    by (auto simp: prefix_def)
  with x have "r = x @ promise_close @ post"
    by (metis takeWhile_dropWhile_id)
  moreover from x have "CHR ''<'' \<notin> set x" by (auto dest: set_takeWhileD)
  ultimately show "\<exists>post. s = promise_open @ x @ promise_close @ post \<and> CHR ''<'' \<notin> set x"
    using s by auto
next
  assume "\<exists>post. s = promise_open @ x @ promise_close @ post \<and> CHR ''<'' \<notin> set x"
  then obtain post where s: "s = promise_open @ x @ promise_close @ post" and x: "CHR ''<'' \<notin> set x"
    by auto
  have close: "promise_close @ post = CHR ''<'' # ''/promise>'' @ post" by (simp add: promise_close_def)
  from x have t: "takeWhile (\<lambda>c. c \<noteq> CHR ''<'') (x @ promise_close @ post) = x"
    unfolding close by (subst takeWhile_append2) auto
  from x have d: "dropWhile (\<lambda>c. c \<noteq> CHR ''<'') (x @ promise_close @ post) = promise_close @ post"
    unfolding close by (subst dropWhile_append2) auto
  show "promise_at s = Some x"
    unfolding s promise_at_def by (simp add: t d)
qed

lemma promise_at_Nil: "promise_at [] = None"
  by (simp add: promise_at_def promise_open_def)

lemma sed_promise_None:
  "sed_promise s = None \<longleftrightarrow> (\<forall>a b. s = a @ b \<longrightarrow> promise_at b = None)"
proof (induction s)
  case Nil
  then show ?case by (simp add: promise_at_Nil)
next
  case (Cons c cs)
  show ?case
  proof
    assume n: "sed_promise (c # cs) = None"
    then have n1: "sed_promise cs = None" and n2: "promise_at (c # cs) = None"
      by (auto split: option.splits)
    show "\<forall>a b. c # cs = a @ b \<longrightarrow> promise_at b = None"
    proof (intro allI impI)
      fix a b assume ab: "c # cs = a @ b"
      show "promise_at b = None"
      proof (cases a)
        case Nil
        with ab n2 show ?thesis by simp
      next
        case (Cons a1 as)
        with ab have "cs = as @ b" by simp
        with n1 Cons.IH show ?thesis by blast
      qed
    qed
  next
    assume a: "\<forall>a b. c # cs = a @ b \<longrightarrow> promise_at b = None"
    then have "promise_at (c # cs) = None" by (metis append_Nil)
    moreover have "sed_promise cs = None"
      unfolding Cons.IH
    proof (intro allI impI)
      fix a' b' assume "cs = a' @ b'"
      then have "c # cs = (c # a') @ b'" by simp
      with a show "promise_at b' = None" by blast
    qed
    ultimately show "sed_promise (c # cs) = None" by simp
  qed
qed

lemma sed_promise_Some:
  "sed_promise s = Some x \<Longrightarrow>
     \<exists>a c cs. s = a @ c # cs \<and> promise_at (c # cs) = Some x \<and> sed_promise cs = None"
proof (induction s)
  case Nil
  then show ?case by simp
next
  case (Cons c cs)
  show ?case
  proof (cases "sed_promise cs")
    case None
    with Cons.prems have "promise_at (c # cs) = Some x" by simp
    with None show ?thesis by (metis append_Nil)
  next
    case (Some y)
    with Cons.prems have "y = x" by simp
    with Some Cons.IH obtain a c' cs' where
      "cs = a @ c' # cs'" "promise_at (c' # cs') = Some x" "sed_promise cs' = None" by blast
    then have "c # cs = (c # a) @ c' # cs'" by simp
    with \<open>promise_at (c' # cs') = Some x\<close> \<open>sed_promise cs' = None\<close> show ?thesis by blast
  qed
qed

lemma sed_promise_append: "sed_promise b = Some x \<Longrightarrow> sed_promise (a @ b) = Some x"
  by (induction a) auto

lemma sed_promise_last:
  "sed_promise s = Some x \<longleftrightarrow>
     (\<exists>pre post. s = pre @ promise_open @ x @ promise_close @ post \<and> CHR ''<'' \<notin> set x
        \<and> (\<forall>pre' x' post'. s = pre' @ promise_open @ x' @ promise_close @ post'
               \<and> CHR ''<'' \<notin> set x' \<longrightarrow> length pre' \<le> length pre))"
proof
  assume "sed_promise s = Some x"
  then obtain a c cs where s: "s = a @ c # cs" and at: "promise_at (c # cs) = Some x"
    and none: "sed_promise cs = None"
    by (blast dest: sed_promise_Some)
  from at obtain post where suf: "c # cs = promise_open @ x @ promise_close @ post"
    and x: "CHR ''<'' \<notin> set x"
    by (auto simp: promise_at_Some)
  have "length pre' \<le> length a"
    if d: "s = pre' @ promise_open @ x' @ promise_close @ post'" and x': "CHR ''<'' \<notin> set x'"
    for pre' x' post'
  proof (rule ccontr)
    assume "\<not> length pre' \<le> length a"
    then have long: "length a < length pre'" by simp
    from s d have eq: "a @ c # cs = pre' @ promise_open @ x' @ promise_close @ post'" by simp
    from eq long obtain u where u: "pre' = a @ u" "u \<noteq> []"
      "c # cs = u @ promise_open @ x' @ promise_close @ post'"
      by (auto simp: append_eq_append_conv2)
    then obtain u' where "u = c # u'" by (cases u) auto
    with u have "cs = u' @ promise_open @ x' @ promise_close @ post'" by simp
    with none have "promise_at (promise_open @ x' @ promise_close @ post') = None"
      by (simp add: sed_promise_None)
    moreover from x' have "promise_at (promise_open @ x' @ promise_close @ post') = Some x'"
      by (auto simp: promise_at_Some)
    ultimately show False by simp
  qed
  with s suf x show "\<exists>pre post. s = pre @ promise_open @ x @ promise_close @ post \<and> CHR ''<'' \<notin> set x
        \<and> (\<forall>pre' x' post'. s = pre' @ promise_open @ x' @ promise_close @ post'
               \<and> CHR ''<'' \<notin> set x' \<longrightarrow> length pre' \<le> length pre)"
    by (intro exI[of _ a] exI[of _ post]) auto
next
  assume "\<exists>pre post. s = pre @ promise_open @ x @ promise_close @ post \<and> CHR ''<'' \<notin> set x
        \<and> (\<forall>pre' x' post'. s = pre' @ promise_open @ x' @ promise_close @ post'
               \<and> CHR ''<'' \<notin> set x' \<longrightarrow> length pre' \<le> length pre)"
  then obtain pre post where s: "s = pre @ promise_open @ x @ promise_close @ post"
    and x: "CHR ''<'' \<notin> set x"
    and mx: "\<And>pre' x' post'. s = pre' @ promise_open @ x' @ promise_close @ post'
               \<Longrightarrow> CHR ''<'' \<notin> set x' \<Longrightarrow> length pre' \<le> length pre"
    by blast
  define suf where "suf = promise_open @ x @ promise_close @ post"
  from x have at: "promise_at suf = Some x" by (auto simp: suf_def promise_at_Some)
  obtain c cs where suf_c: "suf = c # cs" by (cases suf) (auto simp: suf_def promise_open_def)
  have "sed_promise cs = None"
    unfolding sed_promise_None
  proof (intro allI impI)
    fix a b assume ab: "cs = a @ b"
    show "promise_at b = None"
    proof (rule ccontr)
      assume "promise_at b \<noteq> None"
      then obtain x' where "promise_at b = Some x'" by auto
      then obtain post' where b: "b = promise_open @ x' @ promise_close @ post'"
        and x': "CHR ''<'' \<notin> set x'"
        by (auto simp: promise_at_Some)
      from s suf_c ab b have "s = (pre @ c # a) @ promise_open @ x' @ promise_close @ post'"
        by (simp add: suf_def[symmetric])
      from mx[OF this x'] show False by simp
    qed
  qed
  with at suf_c have "sed_promise suf = Some x" by simp
  then have "sed_promise (pre @ suf) = Some x" by (rule sed_promise_append)
  with s show "sed_promise s = Some x" by (simp add: suf_def)
qed

lemma has_infix_iff: "has_infix p l \<longleftrightarrow> (\<exists>a b. l = a @ p @ b)"
proof (induction l)
  case Nil
  then show ?case by auto
next
  case (Cons c cs)
  show ?case
  proof
    assume "has_infix p (c # cs)"
    then consider "prefix p (c # cs)" | "has_infix p cs" by auto
    then show "\<exists>a b. c # cs = a @ p @ b"
    proof cases
      case 1
      then obtain b where "c # cs = p @ b" by (auto simp: prefix_def)
      then have "c # cs = [] @ p @ b" by simp
      then show ?thesis by blast
    next
      case 2
      with Cons.IH obtain a b where "cs = a @ p @ b" by blast
      then have "c # cs = (c # a) @ p @ b" by simp
      then show ?thesis by blast
    qed
  next
    assume "\<exists>a b. c # cs = a @ p @ b"
    then obtain a b where ab: "c # cs = a @ p @ b" by blast
    show "has_infix p (c # cs)"
    proof (cases a)
      case Nil
      with ab have "prefix p (c # cs)" by (simp add: prefix_def)
      then show ?thesis by simp
    next
      case (Cons a1 as)
      with ab have "cs = as @ p @ b" by simp
      with Cons.IH have "has_infix p cs" by blast
      then show ?thesis by simp
    qed
  qed
qed

lemma last_filter_split:
  "filter P ts \<noteq> [] \<Longrightarrow>
     \<exists>pre post. ts = pre @ last (filter P ts) # post \<and> P (last (filter P ts)) \<and> (\<forall>x\<in>set post. \<not> P x)"
proof (induction ts rule: rev_induct)
  case Nil
  then show ?case by simp
next
  case (snoc x xs)
  show ?case
  proof (cases "P x")
    case True
    then have "last (filter P (xs @ [x])) = x" by simp
    with True show ?thesis by (intro exI[of _ xs] exI[of _ "[]"]) simp
  next
    case False
    with snoc.prems have ne: "filter P xs \<noteq> []" by simp
    from False have eq: "filter P (xs @ [x]) = filter P xs" by simp
    from snoc.IH[OF ne] obtain pre post where
      "xs = pre @ last (filter P xs) # post" "P (last (filter P xs))" "\<forall>y\<in>set post. \<not> P y"
      by blast
    with False show ?thesis
      unfolding eq by (intro exI[of _ pre] exI[of _ "post @ [x]"]) auto
  qed
qed

lemma last_filter_unique:
  "ts = pre @ l # post \<Longrightarrow> P l \<Longrightarrow> \<forall>x\<in>set post. \<not> P x \<Longrightarrow> last (filter P ts) = l"
proof -
  assume a: "ts = pre @ l # post" "P l" "\<forall>x\<in>set post. \<not> P x"
  then have "filter P post = []" by (simp add: filter_empty_conv)
  with a show ?thesis by simp
qed

lemma role_pat_nonempty: "has_infix role_pat l \<Longrightarrow> l \<noteq> []"
  by (auto simp: role_pat_def)

lemma last_line_value: "nl \<notin> set l \<Longrightarrow> cmdsubst (stream_of [l]) = l"
  by (simp add: stream_of_def cmdsubst_snoc_nl cmdsubst_no_nl)

lemma select_last_line_found:
  assumes "fs e tp = Some ts" and "\<forall>l\<in>set ts. nl \<notin> set l"
    and "filter (has_infix role_pat) ts \<noteq> []"
  shows "select_last_line e tp = Inr (last (filter (has_infix role_pat) ts))"
proof -
  let ?l = "last (filter (has_infix role_pat) ts)"
  from assms(3) have "?l \<in> set (filter (has_infix role_pat) ts)" by (rule last_in_set)
  then have mem: "?l \<in> set ts" and inf: "has_infix role_pat ?l" by auto
  from mem assms(2) have "cmdsubst (stream_of [?l]) = ?l" by (simp add: last_line_value)
  moreover from inf have "?l \<noteq> []" by (rule role_pat_nonempty)
  ultimately show ?thesis
    using assms(1,3) by (simp add: select_last_line_def Let_def)
qed

lemma select_last_line_none:
  assumes "fs e tp = Some ts" and "filter (has_infix role_pat) ts = []"
  shows "\<exists>r. select_last_line e tp = Inl r \<and> exit_at r = NoAssistantMessages
            \<and> exit_code r = 0 \<and> out r = [] \<and> files r = (fs e)(RALPH_STATE_FILE := None)"
  using assms by (simp add: select_last_line_def Let_def stop_loop_def)

subsection \<open>Exit status and the state file\<close>

text \<open>What every early exit after the state file was found looks like: either the shell
  ended the script (status 1, nothing touched), or the script removed the state file
  and left with status 0.\<close>

lemma validate_effect:
  "validate e it mx = Inl r \<Longrightarrow>
     exit_at r \<noteq> ErrExit \<and> exit_code r = 0 \<and> files r = (fs e)(RALPH_STATE_FILE := None)"
  by (auto simp: validate_def stop_loop_def split: if_splits)

lemma check_cap_effect:
  "check_cap e it mx = Inl r \<Longrightarrow>
     exit_at r \<noteq> ErrExit \<and> exit_code r = 0 \<and> files r = (fs e)(RALPH_STATE_FILE := None)"
  by (auto simp: check_cap_def stop_loop_def split: if_splits)

lemma transcript_path_effect:
  "transcript_path e = Inl r \<Longrightarrow>
     (exit_at r = ErrExit \<and> exit_code r = 1 \<and> files r = fs e)
     \<or> (exit_at r \<noteq> ErrExit \<and> exit_code r = 0 \<and> files r = (fs e)(RALPH_STATE_FILE := None))"
  by (auto simp: transcript_path_def Let_def stop_loop_def errexit_def split: if_splits)

lemma select_last_line_effect:
  "select_last_line e tp = Inl r \<Longrightarrow>
     exit_at r \<noteq> ErrExit \<and> exit_code r = 0 \<and> files r = (fs e)(RALPH_STATE_FILE := None)"
  by (auto simp: select_last_line_def Let_def stop_loop_def split: option.splits if_splits)

lemma extract_text_effect:
  "extract_text e l = Inl r \<Longrightarrow>
     exit_at r \<noteq> ErrExit \<and> exit_code r = 0 \<and> files r = (fs e)(RALPH_STATE_FILE := None)"
  by (auto simp: extract_text_def Let_def stop_loop_def split: if_splits)

lemma last_output_effect:
  "last_output e tp = Inl r \<Longrightarrow>
     exit_at r \<noteq> ErrExit \<and> exit_code r = 0 \<and> files r = (fs e)(RALPH_STATE_FILE := None)"
  by (auto simp: last_output_def then_do_Inl dest!: select_last_line_effect extract_text_effect)

lemma check_promise_effect:
  "check_promise e p lo = Inl r \<Longrightarrow>
     exit_at r \<noteq> ErrExit \<and> exit_code r = 0 \<and> files r = (fs e)(RALPH_STATE_FILE := None)"
  by (auto simp: check_promise_def stop_loop_def split: if_splits)

lemma transcript_checks_effect:
  "transcript_checks e sf it p = Inl r \<Longrightarrow>
     (exit_at r = ErrExit \<and> exit_code r = 1 \<and> files r = fs e)
     \<or> (exit_at r \<noteq> ErrExit \<and> exit_code r = 0 \<and> files r = (fs e)(RALPH_STATE_FILE := None))"
  by (auto simp: transcript_checks_def then_do_Inl
           dest!: transcript_path_effect last_output_effect check_promise_effect)

lemma checks_effect:
  "checks e = Inl r \<Longrightarrow>
     (exit_at r = NoActiveLoop \<and> exit_code r = 0 \<and> files r = fs e)
     \<or> (exit_at r = ErrExit \<and> exit_code r = 1 \<and> files r = fs e)
     \<or> (exit_at r \<noteq> ErrExit \<and> exit_code r = 0 \<and> files r = (fs e)(RALPH_STATE_FILE := None))"
  by (auto simp: checks_def then_do_Inl load_state_def no_loop_def errexit_def
           split: option.splits
           dest!: validate_effect check_cap_effect transcript_checks_effect)

lemma continue_loop_effect:
  "(exit_at (continue_loop e sf n p) = ErrExit \<and> exit_code (continue_loop e sf n p) = 1
      \<and> files (continue_loop e sf n p) = fs e)
   \<or> (exit_at (continue_loop e sf n p) \<noteq> ErrExit \<and> exit_code (continue_loop e sf n p) = 0
      \<and> (exit_at (continue_loop e sf n p) \<noteq> Blocked \<longrightarrow>
           files (continue_loop e sf n p) = (fs e)(RALPH_STATE_FILE := None)))"
  by (simp add: continue_loop_def Let_def stop_loop_def errexit_def split: option.splits)

text \<open>Exit status: 1 where the shell ends the script, 0 on the script's own exits.\<close>

lemma exit_code_stop_hook:
  "exit_code (stop_hook e) = (if exit_at (stop_hook e) = ErrExit then 1 else 0)"
proof (cases "checks e")
  case (Inl r)
  with checks_effect[OF Inl] show ?thesis by (auto simp: stop_hook_Inl)
next
  case (Inr v)
  obtain sf n p where "v = (sf, n, p)" by (cases v)
  with Inr continue_loop_effect[of e sf n p] show ?thesis by (auto simp: stop_hook_Inr)
qed

text \<open>Every exit of the script other than "no active loop" and the block decision
  removes the state file and touches nothing else.\<close>

lemma terminal_removes_state:
  assumes "exit_at (stop_hook e) \<notin> {NoActiveLoop, ErrExit, Blocked}"
  shows "files (stop_hook e) = (fs e)(RALPH_STATE_FILE := None) \<and> exit_code (stop_hook e) = 0"
proof (cases "checks e")
  case (Inl r)
  with checks_effect[OF Inl] assms show ?thesis by (auto simp: stop_hook_Inl)
next
  case (Inr v)
  obtain sf n p where "v = (sf, n, p)" by (cases v)
  with Inr continue_loop_effect[of e sf n p] assms show ?thesis by (auto simp: stop_hook_Inr)
qed

text \<open>A field that is present and not a number ends the run with the corruption report.\<close>

lemma corrupt_iteration_stops:
  "fs e RALPH_STATE_FILE = Some sf \<Longrightarrow> parse_fields sf = Some (it, mx, p) \<Longrightarrow> \<not> is_number it \<Longrightarrow>
   stop_hook e = stop_loop e CorruptIteration [] (corrupt_msg ''iteration'' it)"
  by (simp add: stop_hook_def checks_parsed validate_def then_do_def)

lemma corrupt_max_iterations_stops:
  "fs e RALPH_STATE_FILE = Some sf \<Longrightarrow> parse_fields sf = Some (it, mx, p) \<Longrightarrow> is_number it \<Longrightarrow>
   \<not> is_number mx \<Longrightarrow>
   stop_hook e = stop_loop e CorruptMaxIterations [] (corrupt_msg ''max_iterations'' mx)"
  by (simp add: stop_hook_def checks_parsed validate_def then_do_def)

subsection \<open>The prompt body\<close>

text \<open>What the \<^verbatim>\<open>awk\<close> of line 144 prints: the lines after the second delimiter, without
  the delimiter lines among them.\<close>

lemma awk_body_after:
  "awk_body i ls = filter (\<lambda>l. l \<noteq> ''---'') (after_delimiters (2 - i) ls)"
proof (induction ls arbitrary: i)
  case Nil
  then show ?case by (cases "2 - i") simp_all
next
  case (Cons l ls)
  show ?case
  proof (cases "2 \<le> i")
    case True
    then have "2 - i = 0" "2 - (i + 1) = 0" by simp_all
    with True Cons[of i] Cons[of "i + 1"] show ?thesis by simp
  next
    case False
    then obtain k where k: "2 - i = Suc k" "2 - (i + 1) = k" by (cases "2 - i") auto
    with False Cons[of i] Cons[of "i + 1"] show ?thesis by simp
  qed
qed

lemma awk_body_spec:
  "awk_body 0 sf = filter (\<lambda>l. l \<noteq> ''---'') (spec_extractBody sf)"
  by (simp add: awk_body_after spec_extractBody_def)

text \<open>The update of line 163 and the body: the rewrite commutes with reading the body,
  so the body is kept exactly when none of its lines begins with \<^verbatim>\<open>iteration: \<close>.\<close>

lemma sed_iteration_delimiter: "sed_iteration n l = ''---'' \<longleftrightarrow> l = ''---''"
  by (auto simp: sed_iteration_def)

lemma awk_body_update:
  "awk_body i (map (sed_iteration n) sf) = map (sed_iteration n) (awk_body i sf)"
  by (induction sf arbitrary: i) (simp_all add: sed_iteration_delimiter)

lemma update_keeps_body:
  assumes "\<forall>l\<in>set (awk_body 0 sf). \<not> prefix ''iteration: '' l"
  shows "awk_body 0 (map (sed_iteration n) sf) = awk_body 0 sf"
proof -
  have "map (sed_iteration n) (awk_body 0 sf) = awk_body 0 sf"
    using assms by (intro map_idI) (simp add: sed_iteration_def)
  then show ?thesis by (simp add: awk_body_update)
qed

subsection \<open>The lines written, character by character\<close>

lemma lines_from_snoc_nl: "nl \<notin> set s \<Longrightarrow> lines_from cur (s @ [nl]) = [cur @ s]"
  by (induction s arbitrary: cur) auto

lemma echo_single: "nl \<notin> set s \<Longrightarrow> echo s = [s]"
  by (simp add: echo_def split_lines_def lines_from_snoc_nl)

lemma is_digit_plain:
  "is_digit c \<Longrightarrow> c \<noteq> nl \<and> c \<noteq> dq \<and> c \<noteq> bslash \<and> c \<noteq> CHR 0x0D \<and> c \<noteq> CHR 0x09"
  by (auto simp: is_digit_def nl_def dq_def bslash_def)

lemma is_number_no_nl: "is_number s \<Longrightarrow> nl \<notin> set s"
  by (auto simp: is_number_def list_all_iff dest: is_digit_plain)

lemma cap_msg_line:
  "is_number mx \<Longrightarrow>
   cap_msg mx = [[CHR 0xF0, CHR 0x9F, CHR 0x9B, CHR 0x91] @ '' Ralph loop: Max iterations (''
                  @ mx @ '') reached.'']"
proof -
  assume "is_number mx"
  then have "nl \<notin> set mx" by (rule is_number_no_nl)
  then have "nl \<notin> set (stop_sign @ '' Ralph loop: Max iterations ('' @ mx @ '') reached.'')"
    by (simp add: stop_sign_def nl_def)
  then show ?thesis by (simp add: cap_msg_def echo_single) (simp add: stop_sign_def)
qed

lemma subst_char_append: "subst_char c r (a @ b) = subst_char c r a @ subst_char c r b"
  by (simp add: subst_char_def)

lemma escape_json_append: "escape_json (a @ b) = escape_json a @ escape_json b"
  by (simp add: escape_json_def subst_char_append)

lemma subst_char_absent: "c \<notin> set s \<Longrightarrow> subst_char c r s = s"
  by (induction s) (auto simp: subst_char_def)

lemma escape_json_plain:
  assumes "bslash \<notin> set s" "dq \<notin> set s" "nl \<notin> set s" "CHR 0x0D \<notin> set s" "CHR 0x09 \<notin> set s"
  shows "escape_json s = s"
  using assms by (simp add: escape_json_def subst_char_absent)

lemma set_subst_char: "set (subst_char c r s) \<subseteq> (set s - {c}) \<union> set r"
  by (induction s) (auto simp: subst_char_def)

lemma escape_json_no_nl: "nl \<notin> set (escape_json s)"
proof -
  let ?a = "subst_char nl [bslash, CHR ''n''] (subst_char dq [bslash, dq] (subst_char bslash [bslash, bslash] s))"
  have "set ?a \<subseteq> (set (subst_char dq [bslash, dq] (subst_char bslash [bslash, bslash] s)) - {nl})
          \<union> set [bslash, CHR ''n'']"
    by (rule set_subst_char)
  then have a: "nl \<notin> set ?a" by (auto simp: nl_def bslash_def)
  have "set (subst_char (CHR 0x0D) [bslash, CHR ''r''] ?a) \<subseteq> (set ?a - {CHR 0x0D}) \<union> set [bslash, CHR ''r'']"
    by (rule set_subst_char)
  with a have b: "nl \<notin> set (subst_char (CHR 0x0D) [bslash, CHR ''r''] ?a)"
    by (auto simp: nl_def bslash_def)
  have "set (escape_json s) \<subseteq> (set (subst_char (CHR 0x0D) [bslash, CHR ''r''] ?a) - {CHR 0x09})
          \<union> set [bslash, CHR ''t'']"
    unfolding escape_json_def by (rule set_subst_char)
  with b show ?thesis by (auto simp: nl_def bslash_def)
qed

lemma show_nat_plain:
  "c \<in> set (show_nat n) \<Longrightarrow> c \<noteq> nl \<and> c \<noteq> dq \<and> c \<noteq> bslash \<and> c \<noteq> CHR 0x0D \<and> c \<noteq> CHR 0x09"
  using show_nat_digits[of n] by (auto simp: list_all_iff dest: is_digit_plain)

lemma show_int_plain:
  "c \<in> set (show_int i) \<Longrightarrow> c \<noteq> nl \<and> c \<noteq> dq \<and> c \<noteq> bslash \<and> c \<noteq> CHR 0x0D \<and> c \<noteq> CHR 0x09"
  by (auto simp: show_int_def nl_def dq_def bslash_def dest: show_nat_plain split: if_splits)

lemma escape_json_show_int: "escape_json (show_int i) = show_int i"
  by (rule escape_json_plain) (auto dest: show_int_plain)

text \<open>The line of the block decision.\<close>

lemma block_line:
  \<open>split_lines (block_json (cmdsubst (escape_json a)) (cmdsubst (escape_json b)) @ [nl])
     = [''{"decision":"block","reason":"'' @ escape_json a @ ''","systemMessage":"''
          @ escape_json b @ ''"}'']\<close>
proof -
  have c: "cmdsubst (escape_json a) = escape_json a" "cmdsubst (escape_json b) = escape_json b"
    by (simp_all add: cmdsubst_no_nl escape_json_no_nl)
  have \<open>nl \<notin> set (block_json (escape_json a) (escape_json b))\<close>
    by (simp add: block_json_def escape_json_no_nl) (simp add: nl_def)
  then have "split_lines (block_json (escape_json a) (escape_json b) @ [nl])
               = [block_json (escape_json a) (escape_json b)]"
    by (simp add: split_lines_def lines_from_snoc_nl)
  then show ?thesis by (simp add: c block_json_def)
qed

text \<open>The system message when no promise is set: nothing in it needs escaping.\<close>

lemma unset_msg_escaped:
  "\<not> promise_set p \<Longrightarrow>
   escape_json (system_msg (show_int i) p)
     = [CHR 0xF0, CHR 0x9F, CHR 0x94, CHR 0x84] @ '' Ralph iteration '' @ show_int i
       @ '' | No completion promise set - loop runs infinitely''"
proof -
  assume unset: "\<not> promise_set p"
  define pre where "pre = [CHR 0xF0, CHR 0x9F, CHR 0x94, CHR 0x84] @ '' Ralph iteration ''"
  define post where "post = '' | No completion promise set - loop runs infinitely''"
  from unset have m: "system_msg (show_int i) p = pre @ show_int i @ post"
    by (simp add: system_msg_def loop_sign_def pre_def post_def)
  have a: "escape_json pre = pre"
    unfolding pre_def by code_simp
  have b: "escape_json post = post"
    unfolding post_def by code_simp
  have "escape_json (pre @ show_int i @ post) = pre @ show_int i @ post"
    by (simp add: escape_json_append a b escape_json_show_int)
  then show ?thesis
    unfolding m by (simp add: pre_def post_def)
qed

subsection \<open>What standard output can hold\<close>

lemma validate_out: "validate e it mx = Inl r \<Longrightarrow> out r = []"
  by (auto simp: validate_def stop_loop_def split: if_splits)

lemma validate_Inr: "validate e it mx = Inr u \<Longrightarrow> is_number it \<and> is_number mx"
  by (auto simp: validate_def split: if_splits)

lemma check_cap_out: "check_cap e it mx = Inl r \<Longrightarrow> out r = cap_msg mx"
  by (auto simp: check_cap_def stop_loop_def split: if_splits)

lemma transcript_path_out: "transcript_path e = Inl r \<Longrightarrow> out r = []"
  by (auto simp: transcript_path_def Let_def stop_loop_def errexit_def split: if_splits)

lemma select_last_line_out: "select_last_line e tp = Inl r \<Longrightarrow> out r = []"
  by (auto simp: select_last_line_def Let_def stop_loop_def split: option.splits if_splits)

lemma extract_text_out: "extract_text e l = Inl r \<Longrightarrow> out r = []"
  by (auto simp: extract_text_def Let_def stop_loop_def split: if_splits)

lemma last_output_out: "last_output e tp = Inl r \<Longrightarrow> out r = []"
  by (auto simp: last_output_def then_do_Inl dest!: select_last_line_out extract_text_out)

lemma check_promise_out:
  "check_promise e p lo = Inl r \<Longrightarrow> promise_set p \<and> out r = detected_msg p"
  by (auto simp: check_promise_def stop_loop_def split: if_splits)

lemma transcript_checks_out:
  "transcript_checks e sf it p = Inl r \<Longrightarrow> out r = [] \<or> (promise_set p \<and> out r = detected_msg p)"
  by (auto simp: transcript_checks_def then_do_Inl
           dest!: transcript_path_out last_output_out check_promise_out)

lemma continue_loop_out:
  "out (continue_loop e sf n p) = []
   \<or> (\<exists>k. n = Some k \<and> out (continue_loop e sf n p) =
         split_lines (block_json (cmdsubst (escape_json (prompt_text sf)))
                        (cmdsubst (escape_json (system_msg k p))) @ [nl]))"
  by (simp add: continue_loop_def Let_def stop_loop_def errexit_def split: option.splits)

lemma out_cases:
  assumes "fs e RALPH_STATE_FILE = Some sf" and "parse_fields sf = Some (it, mx, p)"
  shows "out (stop_hook e) = []
       \<or> (is_number mx \<and> out (stop_hook e) = cap_msg mx)
       \<or> (promise_set p \<and> out (stop_hook e) = detected_msg p)
       \<or> (\<exists>i. bash_number it = Some i \<and> out (stop_hook e) =
             split_lines (block_json (cmdsubst (escape_json (prompt_text sf)))
               (cmdsubst (escape_json (system_msg (show_int (wrap64 (i + 1))) p))) @ [nl]))"
proof -
  have chk: "checks e =
     then_do (validate e it mx) (\<lambda>_. then_do (check_cap e it mx) (\<lambda>_. transcript_checks e sf it p))"
    using assms by (rule checks_parsed)
  show ?thesis
  proof (cases "checks e")
    case (Inl r)
    then have "out r = [] \<or> (is_number mx \<and> out r = cap_msg mx)
                 \<or> (promise_set p \<and> out r = detected_msg p)"
      unfolding chk
      by (auto simp: then_do_Inl dest!: validate_out validate_Inr check_cap_out transcript_checks_out)
    with Inl show ?thesis by (auto simp: stop_hook_Inl)
  next
    case (Inr v)
    then have "transcript_checks e sf it p = Inr v"
      unfolding chk by (auto simp: then_do_Inr)
    then have v: "v = (sf, next_iteration it, p)" by (rule transcript_checks_Inr)
    with Inr have s: "stop_hook e = continue_loop e sf (next_iteration it) p"
      by (simp add: stop_hook_Inr)
    from continue_loop_out[of e sf "next_iteration it" p] show ?thesis
      unfolding s by (auto simp: next_iteration_def split: option.splits)
  qed
qed

lemma no_check_mark:
  assumes "fs e RALPH_STATE_FILE = Some sf" and "parse_fields sf = Some (it, mx, p)"
    and "\<not> promise_set p"
  shows "\<forall>l\<in>set (out (stop_hook e)). \<not> prefix [CHR 0xE2, CHR 0x9C, CHR 0x85] l"
proof -
  from out_cases[OF assms(1,2)] assms(3)
  consider "out (stop_hook e) = []"
    | "is_number mx" "out (stop_hook e) = cap_msg mx"
    | i where "out (stop_hook e) =
             split_lines (block_json (cmdsubst (escape_json (prompt_text sf)))
               (cmdsubst (escape_json (system_msg (show_int (wrap64 (i + 1))) p))) @ [nl])"
    by blast
  then show ?thesis
  proof cases
    case 1
    then show ?thesis by simp
  next
    case 2
    then show ?thesis by (simp add: cap_msg_line)
  next
    case 3
    then show ?thesis by (simp add: block_line)
  qed
qed

subsection \<open>The cap and the empty prompt on counters without a leading zero\<close>

text \<open>For counters that are the decimal numerals of \<open>i\<close> and \<open>n\<close> below \<open>2^63\<close>: with
  \<open>n = 0\<close> the run never ends at the cap check; with \<open>n > 0\<close> the cap check is passed
  exactly when \<open>i < n\<close>, and from \<open>n\<close> on the run removes the state file, writes the one
  line of the cap report to standard output and leaves with status 0.\<close>

lemma cap_semantics_decimal:
  assumes "fs e RALPH_STATE_FILE = Some sf"
    and "parse_fields sf = Some (show_nat i, show_nat n, p)"
    and "i < 2 ^ 63" and "n < 2 ^ 63"
  shows "(n = 0 \<longrightarrow> exit_at (stop_hook e) \<noteq> MaxIterationsReached)
       \<and> (0 < n \<longrightarrow> (check_cap e (show_nat i) (show_nat n) = Inr () \<longleftrightarrow> i < n))
       \<and> (0 < n \<longrightarrow> (exit_at (stop_hook e) = MaxIterationsReached \<longleftrightarrow> n \<le> i))
       \<and> (0 < n \<and> n \<le> i \<longrightarrow>
            stop_hook e =
              \<lparr>exit_code = 0,
               out = [[CHR 0xF0, CHR 0x9F, CHR 0x9B, CHR 0x91] @ '' Ralph loop: Max iterations (''
                        @ show_nat n @ '') reached.''],
               err = [],
               files = (fs e)(RALPH_STATE_FILE := None),
               exit_at = MaxIterationsReached\<rparr>)"
proof -
  have cap: "cap_reached (show_nat i) (show_nat n) \<longleftrightarrow> 0 < n \<and> n \<le> i"
    using assms(3,4) by (rule cap_reached_show_nat)
  have hit: "stop_hook e = stop_loop e MaxIterationsReached (cap_msg (show_nat n)) []"
    if "0 < n" "n \<le> i"
    using that cap assms(1,2) by (simp add: stop_hook_cap is_number_show_nat)
  have miss: "exit_at (stop_hook e) \<noteq> MaxIterationsReached" if "\<not> (0 < n \<and> n \<le> i)"
    using that cap assms(1,2)
    by (intro stop_hook_not_cap[where it="show_nat i" and mx="show_nat n"])
       (simp_all add: is_number_show_nat)
  have c1: "n = 0 \<longrightarrow> exit_at (stop_hook e) \<noteq> MaxIterationsReached"
    using miss by simp
  have c2: "0 < n \<longrightarrow> (check_cap e (show_nat i) (show_nat n) = Inr () \<longleftrightarrow> i < n)"
    using cap by (auto simp: check_cap_def)
  have c3: "0 < n \<longrightarrow> (exit_at (stop_hook e) = MaxIterationsReached \<longleftrightarrow> n \<le> i)"
    using hit miss by (auto simp: exit_at_stop_loop)
  have c4: "0 < n \<and> n \<le> i \<longrightarrow>
            stop_hook e =
              \<lparr>exit_code = 0,
               out = [[CHR 0xF0, CHR 0x9F, CHR 0x9B, CHR 0x91] @ '' Ralph loop: Max iterations (''
                        @ show_nat n @ '') reached.''],
               err = [],
               files = (fs e)(RALPH_STATE_FILE := None),
               exit_at = MaxIterationsReached\<rparr>"
    using hit by (simp add: stop_loop_def cap_msg_line is_number_show_nat)
  from c1 c2 c3 c4 show ?thesis by blast
qed

text \<open>Without prompt text the run ends with the "No prompt text" report exactly when all
  checks of lines 12-137 have passed. With \<open>stop_hook_cap\<close> and \<open>stop_hook_promise\<close>
  (the cap and the promise end the run before the prompt is read) and \<open>blocked_iff\<close>
  (the run is a continuation exactly when the checks pass, the next iteration number
  was computed and there is prompt text) this is the order of the checks.\<close>

lemma no_prompt_exit:
  assumes "fs e RALPH_STATE_FILE = Some sf" and "prompt_text sf = []"
  shows "stop_hook e = \<lparr>exit_code = 0, out = [], err = no_prompt_msg,
                         files = (fs e)(RALPH_STATE_FILE := None), exit_at = NoPromptText\<rparr>
         \<longleftrightarrow> (\<exists>n p. checks e = Inr (sf, n, p))"
proof
  assume "stop_hook e = \<lparr>exit_code = 0, out = [], err = no_prompt_msg,
                          files = (fs e)(RALPH_STATE_FILE := None), exit_at = NoPromptText\<rparr>"
  then have "exit_at (stop_hook e) = NoPromptText" by simp
  then obtain sf' n p where v: "checks e = Inr (sf', n, p)" by (auto simp: no_prompt_iff)
  with assms(1) have "sf' = sf" by (auto dest: checks_Inr_state)
  with v show "\<exists>n p. checks e = Inr (sf, n, p)" by auto
next
  assume "\<exists>n p. checks e = Inr (sf, n, p)"
  then obtain n p where "checks e = Inr (sf, n, p)" by blast
  with assms(2) show "stop_hook e = \<lparr>exit_code = 0, out = [], err = no_prompt_msg,
                          files = (fs e)(RALPH_STATE_FILE := None), exit_at = NoPromptText\<rparr>"
    by (simp add: stop_hook_Inr continue_loop_def stop_loop_def)
qed


subsection \<open>Evaluation of the example runs\<close>

lemma proceeds_Some: "proceeds m = Some v \<Longrightarrow> m = Inr v"
  by (cases m) (simp_all add: proceeds_def)

lemma fs_run_env: "fs (run_env inp sf ts) RALPH_STATE_FILE = Some sf"
  by (simp add: run_env_def RALPH_STATE_FILE_def)

lemma stop_hook_parse_None:
  "fs e RALPH_STATE_FILE = Some sf \<Longrightarrow> parse_fields sf = None \<Longrightarrow> stop_hook e = errexit e"
  by (simp add: stop_hook_def checks_def load_state_def then_do_def)

lemma stop_hook_path_abort:
  assumes "fs e RALPH_STATE_FILE = Some sf" "parse_fields sf = Some (it, mx, p)"
    "is_number it" "is_number mx" "\<not> cap_reached it mx"
    "concat (map (grep_o match_tp 0) (echo (cmdsubst (stdin e)))) = []"
  shows "stop_hook e = errexit e"
  using assms
  by (simp add: stop_hook_def checks_valid transcript_checks_def then_do_def
        transcript_path_def)

text \<open>The scenarios of the specification, run on the model: A continues with iteration 3
  and the prompt as reason, B ends at the cap, C at the promise, D at the corrupt
  iteration field, E without a state file, F at the missing transcript file.\<close>

lemma scenario_A:
  "exit_at (stop_hook env_A) = Blocked
   \<and> files (stop_hook env_A) RALPH_STATE_FILE
       = Some (state_file ''3'' ''5'' (dq # ''ready'' @ [dq]) [''Fix the bug''])
   \<and> out (stop_hook env_A)
       = [block_json ''Fix the bug'' (escape_json (system_msg ''3'' ''ready''))]"
  by code_simp

lemma scenario_B:
  "exit_at (stop_hook env_B) = MaxIterationsReached \<and> out (stop_hook env_B) = cap_msg ''5''"
  by code_simp

lemma scenario_C:
  "exit_at (stop_hook env_C) = PromiseDetected \<and> out (stop_hook env_C) = detected_msg ''ready''"
  by code_simp

lemma scenario_D:
  "exit_at (stop_hook env_D) = CorruptIteration
   \<and> err (stop_hook env_D) = corrupt_msg ''iteration'' ''abc''"
  by code_simp

lemma scenario_E:
  "exit_at (stop_hook env_E) = NoActiveLoop \<and> out (stop_hook env_E) = []"
  by code_simp

lemma scenario_F:
  "exit_at (stop_hook env_F) = TranscriptNotFound
   \<and> err (stop_hook env_F) ! 1 = ''   Expected: /tmp/absent.jsonl''"
  by code_simp

text \<open>The other ways in which the transcript can be unavailable (scenario F is one) each
  have their own exit; by \<open>terminal_removes_state\<close> they remove the state file and leave with status 0.\<close>

lemma empty_path_run: "exit_at (stop_hook env_empty_path) = NoTranscriptPath"
  by code_simp

lemma no_assistant_run: "exit_at (stop_hook env_no_assistant) = NoAssistantMessages"
  by code_simp

lemma no_text_run: "exit_at (stop_hook env_no_text) = NoTextContent"
  by code_simp

text \<open>Three state files without prompt text: the checks pass, the cap is reached, the
  promise is given.\<close>

lemma empty_prompt_runs:
  "exit_at (stop_hook env_empty) = NoPromptText
   \<and> exit_at (stop_hook env_empty_cap) = MaxIterationsReached
   \<and> exit_at (stop_hook env_empty_done) = PromiseDetected"
  by code_simp

text \<open>The shell reads a counter with a leading zero as octal, and rejects an octal
  constant with a digit 8 or 9; counters of \<open>2^63\<close> and more wrap around.\<close>

lemma octal_counters:
  "bash_number ''010'' = Some 8
   \<and> bash_number ''08'' = None
   \<and> cap_reached ''8'' ''010''
   \<and> \<not> cap_reached ''9'' ''08''"
  by code_simp

section \<open>The claims\<close>

text \<open>
  Claim C1 (cap semantics). The claim asks, for every valid state record, that with
  \<^verbatim>\<open>max_iterations\<close> = N > 0 the run passes the cap check exactly while the iteration
  is below N, and that from N on it removes the state file and reports the cap. The
  script does otherwise where a counter has a leading zero, which its validation
  (\<^verbatim>\<open>^[0-9]+$\<close>, "Validate numeric fields before arithmetic operations") accepts
  and its arithmetic reads as octal. With \<^verbatim>\<open>max_iterations: 08\<close> the test of line 54
  is an error that counts as false: at iteration 9 the run is a continuation, the block
  decision is written and the state file goes on to iteration 10. With
  \<^verbatim>\<open>max_iterations: 010\<close> the cap is reported at iteration 8. (Lemma
  \<open>cap_semantics_decimal\<close> is the claim for counters without a leading zero.)
\<close>

theorem cap_misread_with_leading_zero:
  \<open>parse_fields sf_cap_08 = Some (''9'', ''08'', ''null'')
   \<and> is_number ''9'' \<and> is_number ''08''
   \<and> exit_code (stop_hook env_cap_08) = 0
   \<and> out (stop_hook env_cap_08)
       = [''{"decision":"block","reason":"Fix the bug","systemMessage":"''
          @ [CHR 0xF0, CHR 0x9F, CHR 0x94, CHR 0x84]
          @ '' Ralph iteration 10 | No completion promise set - loop runs infinitely"}'']
   \<and> files (stop_hook env_cap_08) RALPH_STATE_FILE
       = Some [''---'', ''iteration: 10'', ''max_iterations: 08'', ''completion_promise: null'',
               ''---'', ''Fix the bug'']
   \<and> parse_fields sf_cap_010 = Some (''8'', ''010'', ''null'')
   \<and> is_number ''8'' \<and> is_number ''010''
   \<and> exit_code (stop_hook env_cap_010) = 0
   \<and> out (stop_hook env_cap_010)
       = [[CHR 0xF0, CHR 0x9F, CHR 0x9B, CHR 0x91] @ '' Ralph loop: Max iterations (010) reached.'']
   \<and> files (stop_hook env_cap_010) RALPH_STATE_FILE = None\<close>
  by code_simp

text \<open>
  Claim C2 (corrupt fields, exit status). The claim asks for the state file to be
  removed, a diagnostic on the error stream and exit status 0 whenever the
  \<^verbatim>\<open>iteration\<close> or \<^verbatim>\<open>max_iterations\<close> value is missing, and for exit status 0 on
  every path. The script does otherwise when the field's line is missing: \<^verbatim>\<open>grep\<close>
  selects nothing, the pipeline of line 25 fails under \<^verbatim>\<open>pipefail\<close>, and
  \<^verbatim>\<open>set -e\<close> ends the script before the validation of line 31. The run below ends
  with status 1, no diagnostic, and the state file still in place.
\<close>

theorem missing_field_aborts:
  "fs env_no_iteration RALPH_STATE_FILE = Some sf_no_iteration
   \<and> parse_fields sf_no_iteration = None
   \<and> stop_hook env_no_iteration =
       \<lparr>exit_code = 1, out = [], err = [], files = fs env_no_iteration, exit_at = ErrExit\<rparr>"
proof -
  have h1: "fs env_no_iteration RALPH_STATE_FILE = Some sf_no_iteration"
    by (simp add: env_no_iteration_def fs_run_env)
  have h2: "parse_fields sf_no_iteration = None"
    by code_simp
  from h1 h2 have "stop_hook env_no_iteration = errexit env_no_iteration"
    by (rule stop_hook_parse_None)
  with h1 h2 show ?thesis
    by (simp add: errexit_def)
qed

text \<open>
  Claim C3 (completion match). As stated the claim fails: the script tests
  that the payload is non-empty after the white space is removed, so a pair holding one
  space does not match the promise of one space; and it removes only spaces from the
  promise, so a promise with a tab never matches. What holds: for a promise whose only
  white-space characters are spaces, the text matches exactly when a payload is
  extracted, the payload with all white space removed is non-empty, and it equals the
  promise with all white space removed.
\<close>

theorem promise_match_normalized:
  assumes "\<forall>c\<in>set p. is_space c \<longrightarrow> c = sp"
  shows "promise_matches t p \<longleftrightarrow>
           (\<exists>x. promise_payload t = Some x \<and> tr_d_space x \<noteq> [] \<and> tr_d_space x = tr_d_space p)"
  by (auto simp: promise_matches_def promise_text_payload spaces_only_norm[OF assms]
           split: option.splits)

theorem promise_match_normalized_witness:
  "promise_payload spaced_done = Some '' done '' \<and> promise_matches spaced_done ''done''"
proof -
  have h: "\<forall>c\<in>set ''done''. is_space c \<longrightarrow> c = sp"
    by code_simp
  have p: "promise_payload spaced_done = Some '' done ''"
    by code_simp
  have n: "tr_d_space '' done '' = ''done''" "tr_d_space ''done'' = ''done''"
    by code_simp+
  from promise_match_normalized[OF h, of spaced_done] p n show ?thesis
    by simp
qed

text \<open>The claim as stated, at a pair that holds one space with the promise of one space
  (the payload is not empty and equals the promise, before and after the white space is
  removed), and at a promise with a tab given verbatim.\<close>

theorem promise_match_counterexample:
  "parse_fields sf_blank = Some (''2'', ''5'', '' '')
   \<and> promise_set '' ''
   \<and> promise_payload blank_pair = Some '' ''
   \<and> tr_d_space '' '' = []
   \<and> \<not> promise_matches blank_pair '' ''
   \<and> promise_set tab_promise
   \<and> promise_payload tab_pair = Some tab_promise
   \<and> \<not> promise_matches tab_pair tab_promise"
  by code_simp

text \<open>
  Claim C4 (frame property of the iteration update). The claim asks that the update
  rewrites only the iteration line of the header and keeps the body, also when the body
  has a line beginning with \<^verbatim>\<open>iteration: \<close>. The \<^verbatim>\<open>sed\<close> of line 163 has no
  address: it rewrites every such line of the file. In the run below the second line of
  the prompt is replaced by \<^verbatim>\<open>iteration: 3\<close>, so the body read back differs from the
  body before. (The temporary file is written beside the state file and renamed onto
  it; no temporary file is left.)
\<close>

theorem iteration_update_rewrites_body:
  "exit_at (stop_hook env_iter_body) = Blocked
   \<and> awk_body 0 sf_iter_body = [''Improve the solver.'', ''iteration: refine the last answer'']
   \<and> files (stop_hook env_iter_body) RALPH_STATE_FILE
       = Some (state_file ''3'' ''5'' ''null'' [''Improve the solver.'', ''iteration: 3''])
   \<and> files (stop_hook env_iter_body) (RALPH_STATE_FILE @ ''.tmp.4242'') = None
   \<and> awk_body 0 (state_file ''3'' ''5'' ''null'' [''Improve the solver.'', ''iteration: 3''])
       = [''Improve the solver.'', ''iteration: 3'']"
  by code_simp

text \<open>
  Claim C5 (transcript unavailable). The claim asks for the state file to be removed,
  the cause reported and exit status 0 in four cases, the first being a hook input
  without a \<^verbatim>\<open>transcript_path\<close> field. In that case \<^verbatim>\<open>grep -oE\<close> selects nothing,
  the pipeline of line 61 fails under \<^verbatim>\<open>pipefail\<close> and \<^verbatim>\<open>set -e\<close> ends the script
  before the test of line 63: status 1, no diagnostic, state file still in place.
\<close>

theorem missing_transcript_path_aborts:
  "fs env_no_path RALPH_STATE_FILE = Some sf_A
   \<and> stop_hook env_no_path =
       \<lparr>exit_code = 1, out = [], err = [], files = fs env_no_path, exit_at = ErrExit\<rparr>"
proof -
  have h1: "fs env_no_path RALPH_STATE_FILE = Some sf_A"
    by (simp add: env_no_path_def fs_run_env)
  have h2: "parse_fields sf_A = Some (''2'', ''5'', ''ready'')"
    by code_simp
  have h3: "is_number ''2''" "is_number ''5''" "\<not> cap_reached ''2'' ''5''"
    by code_simp+
  have h4: "concat (map (grep_o match_tp 0) (echo (cmdsubst (stdin env_no_path)))) = []"
    by code_simp
  from h1 h2 h3 h4 have "stop_hook env_no_path = errexit env_no_path"
    by (rule stop_hook_path_abort)
  with h1 show ?thesis
    by (simp add: errexit_def)
qed

text \<open>
  Claim C6 (marker extraction). As stated the claim fails: the leading
  \<^verbatim>\<open>.*\<close> of the substitution is greedy, so with several pairs the last one is
  taken, not the first. What holds: the text and the newline of \<^verbatim>\<open>echo\<close> are
  flattened, every newline becoming a space; the payload is the content of the last
  pair of an opening token and a closing token with no \<^verbatim>\<open><\<close> between them; and
  the text compared with the promise is that payload without its white space.
\<close>

theorem promise_payload_last:
  "flatten t = map (\<lambda>c. if c = nl then sp else c) t @ [sp]
   \<and> (promise_payload t = Some x \<longleftrightarrow>
        (\<exists>pre post. flatten t = pre @ promise_open @ x @ promise_close @ post
           \<and> CHR ''<'' \<notin> set x
           \<and> (\<forall>pre' x' post'. flatten t = pre' @ promise_open @ x' @ promise_close @ post'
                  \<and> CHR ''<'' \<notin> set x' \<longrightarrow> length pre' \<le> length pre)))
   \<and> promise_text t = (case promise_payload t of None \<Rightarrow> [] | Some y \<Rightarrow> tr_d_space y)"
  unfolding promise_payload_def[of t]
  by (intro conjI flatten_eq sed_promise_last)
     (simp add: promise_text_payload promise_payload_def)

theorem promise_payload_last_witness:
  "promise_payload two_pairs = Some ''b''
   \<and> (\<exists>pre post. flatten two_pairs = pre @ promise_open @ ''b'' @ promise_close @ post)
   \<and> promise_text two_pairs = ''b''"
proof -
  have p: "promise_payload two_pairs = Some ''b''"
    by code_simp
  have n: "tr_d_space ''b'' = ''b''"
    by code_simp
  from promise_payload_last[of two_pairs "''b''"] p
  have "\<exists>pre post. flatten two_pairs = pre @ promise_open @ ''b'' @ promise_close @ post"
    by blast
  moreover from promise_payload_last[of two_pairs "''b''"] p n
  have "promise_text two_pairs = ''b''"
    by simp
  ultimately show ?thesis
    using p by blast
qed

text \<open>Two pairs: the first occurrence, in the words of the specification, holds
  \<^verbatim>\<open>a\<close>; the script extracts \<^verbatim>\<open>b\<close> and compares that with the promise.\<close>

theorem first_pair_counterexample:
  "spec_first_payload two_pairs = Some ''a''
   \<and> promise_payload two_pairs = Some ''b''
   \<and> promise_matches two_pairs ''b''
   \<and> \<not> promise_matches two_pairs ''a''"
  by code_simp

text \<open>
  Claim C7 (body extraction, replayed prompt). The claim asks that the body is all the
  content after the second delimiter line and that the reason of the decision is that
  body unmodified, also when the body has delimiter lines of its own. The \<^verbatim>\<open>awk\<close>
  of line 144 skips every delimiter line, those of the body too. In the run below the
  body is three lines and the reason holds two.
\<close>

theorem prompt_drops_delimiter_lines:
  "spec_extractBody sf_rule_body = [''Step one'', ''---'', ''Step two'']
   \<and> awk_body 0 sf_rule_body = [''Step one'', ''Step two'']
   \<and> prompt_text sf_rule_body = ''Step one'' @ [nl] @ ''Step two''
   \<and> exit_at (stop_hook env_rule_body) = Blocked
   \<and> out (stop_hook env_rule_body)
       = [block_json (''Step one'' @ [bslash, CHR ''n''] @ ''Step two'')
            (escape_json (system_msg ''3'' ''null''))]"
  by code_simp

text \<open>
  Claim C8 (last assistant turn). As stated the claim fails: the script does
  not read the lines as records, it looks for the text \<^verbatim>\<open>"role":"assistant"\<close>, so an
  entry whose role is written with a space after the colon is not seen. What holds,
  for a transcript file whose lines hold no newline: the run ends with "no assistant
  messages" exactly when no line contains that text; otherwise the line selected is
  exactly the last line containing it, and the text is reconstructed from that line.
\<close>

theorem last_assistant_line:
  assumes "fs e tp = Some ts" and "\<forall>l\<in>set ts. nl \<notin> set l"
  shows "((\<exists>r. select_last_line e tp = Inl r \<and> exit_at r = NoAssistantMessages)
            \<longleftrightarrow> (\<forall>l\<in>set ts. \<not> has_infix role_pat l))
       \<and> (\<forall>l. select_last_line e tp = Inr l
            \<longleftrightarrow> (\<exists>pre post. ts = pre @ l # post \<and> has_infix role_pat l
                   \<and> (\<forall>x\<in>set post. \<not> has_infix role_pat x)))
       \<and> (\<forall>l. select_last_line e tp = Inr l \<longrightarrow> last_output e tp = extract_text e l)
       \<and> (\<forall>l. has_infix role_pat l \<longleftrightarrow> (\<exists>a b. l = a @ role_pat @ b))"
proof -
  let ?ms = "filter (has_infix role_pat) ts"
  have a: "(\<exists>r. select_last_line e tp = Inl r \<and> exit_at r = NoAssistantMessages)
            \<longleftrightarrow> (\<forall>l\<in>set ts. \<not> has_infix role_pat l)"
  proof (cases "?ms = []")
    case True
    then have "\<forall>l\<in>set ts. \<not> has_infix role_pat l" by (simp add: filter_empty_conv)
    moreover from select_last_line_none[OF assms(1) True]
    have "\<exists>r. select_last_line e tp = Inl r \<and> exit_at r = NoAssistantMessages" by blast
    ultimately show ?thesis by blast
  next
    case False
    then have "\<not> (\<forall>l\<in>set ts. \<not> has_infix role_pat l)" by (simp add: filter_empty_conv)
    moreover from select_last_line_found[OF assms False]
    have "\<not> (\<exists>r. select_last_line e tp = Inl r \<and> exit_at r = NoAssistantMessages)" by simp
    ultimately show ?thesis by blast
  qed
  have b: "select_last_line e tp = Inr l
            \<longleftrightarrow> (\<exists>pre post. ts = pre @ l # post \<and> has_infix role_pat l
                   \<and> (\<forall>x\<in>set post. \<not> has_infix role_pat x))" for l
  proof
    assume sel: "select_last_line e tp = Inr l"
    have ne: "?ms \<noteq> []"
    proof
      assume "?ms = []"
      from select_last_line_none[OF assms(1) this] sel show False by auto
    qed
    from select_last_line_found[OF assms ne] sel have "l = last ?ms" by simp
    with last_filter_split[OF ne]
    show "\<exists>pre post. ts = pre @ l # post \<and> has_infix role_pat l
                   \<and> (\<forall>x\<in>set post. \<not> has_infix role_pat x)" by simp
  next
    assume "\<exists>pre post. ts = pre @ l # post \<and> has_infix role_pat l
                   \<and> (\<forall>x\<in>set post. \<not> has_infix role_pat x)"
    then obtain pre post where d: "ts = pre @ l # post" "has_infix role_pat l"
      "\<forall>x\<in>set post. \<not> has_infix role_pat x" by blast
    then have l: "last ?ms = l" by (rule last_filter_unique)
    from d have "?ms \<noteq> []" by (auto simp: filter_empty_conv)
    from select_last_line_found[OF assms this] l show "select_last_line e tp = Inr l" by simp
  qed
  have c: "\<forall>l. select_last_line e tp = Inr l \<longrightarrow> last_output e tp = extract_text e l"
    by (simp add: last_output_def then_do_def)
  have d: "\<forall>l. has_infix role_pat l \<longleftrightarrow> (\<exists>a b. l = a @ role_pat @ b)"
    by (simp add: has_infix_iff)
  from a b c d show ?thesis by blast
qed

text \<open>Two assistant turns: the second is selected.\<close>

theorem last_assistant_line_witness:
  "select_last_line (run_env hook_input sf_A transcript_two) ''/tmp/t.jsonl''
     = Inr (assistant_line ''second answer'')"
proof -
  let ?e = "run_env hook_input sf_A transcript_two"
  have h1: "fs ?e ''/tmp/t.jsonl'' = Some transcript_two"
    by (simp add: run_env_def)
  have h2: "\<forall>l\<in>set transcript_two. nl \<notin> set l"
    by code_simp
  have d: "transcript_two =
      [user_line, assistant_line ''first answer'', user_line]
      @ assistant_line ''second answer'' # [user_line]"
    by (simp add: transcript_two_def)
  have r: "has_infix role_pat (assistant_line ''second answer'')"
    "\<forall>x\<in>set [user_line]. \<not> has_infix role_pat x"
    by code_simp+
  from last_assistant_line[OF h1 h2]
  have "select_last_line ?e ''/tmp/t.jsonl'' = Inr (assistant_line ''second answer'')
        \<longleftrightarrow> (\<exists>pre post. transcript_two = pre @ assistant_line ''second answer'' # post
               \<and> has_infix role_pat (assistant_line ''second answer'')
               \<and> (\<forall>x\<in>set post. \<not> has_infix role_pat x))"
    by blast
  with d r show ?thesis
    by blast
qed

text \<open>An entry whose role is \<^verbatim>\<open>assistant\<close>, written with a space after each colon: the
  run ends with "no assistant messages". Written without the spaces it is found.\<close>

theorem role_field_counterexample:
  "role entry_done = ''assistant''
   \<and> exit_at (stop_hook env_spaced) = NoAssistantMessages
   \<and> files (stop_hook env_spaced) RALPH_STATE_FILE = None
   \<and> exit_at (stop_hook env_compact) = Blocked"
  by code_simp


text \<open>
  Claim C10 (the promise sentinel). For a state file whose \<^verbatim>\<open>completion_promise\<close>
  value, after the quotes are stripped, is \<^verbatim>\<open>null\<close> or empty: the promise check
  passes whatever the assistant wrote; the run never ends with "promise detected" and
  no line of standard output begins with the check mark of the detection report; and
  when the run continues, standard output is the one line of the block decision whose
  system message is the loop sign, the new iteration number and the words "No
  completion promise set - loop runs infinitely".
\<close>

theorem null_promise_skips_detection:
  assumes "fs e RALPH_STATE_FILE = Some sf"
    and "parse_fields sf = Some (it, mx, p)"
    and "p = ''null'' \<or> p = []"
  shows \<open>(\<forall>lo. check_promise e p lo = Inr ())
       \<and> exit_at (stop_hook e) \<noteq> PromiseDetected
       \<and> (\<forall>l\<in>set (out (stop_hook e)). \<not> prefix [CHR 0xE2, CHR 0x9C, CHR 0x85] l)
       \<and> (exit_at (stop_hook e) = Blocked \<longrightarrow>
            (\<exists>i. bash_number it = Some i \<and>
               out (stop_hook e) =
                 [''{"decision":"block","reason":"'' @ escape_json (prompt_text sf)
                  @ ''","systemMessage":"'' @ [CHR 0xF0, CHR 0x9F, CHR 0x94, CHR 0x84]
                  @ '' Ralph iteration '' @ show_int (wrap64 (i + 1))
                  @ '' | No completion promise set - loop runs infinitely'' @ ''"}'']))\<close>
proof -
  from assms(3) have unset: "\<not> promise_set p" by (auto simp: promise_set_def)
  have a: "\<forall>lo. check_promise e p lo = Inr ()"
    using unset by (simp add: check_promise_unset)
  have chk: "checks e =
     then_do (validate e it mx) (\<lambda>_. then_do (check_cap e it mx) (\<lambda>_. transcript_checks e sf it p))"
    using assms(1,2) by (rule checks_parsed)
  have b: "exit_at (stop_hook e) \<noteq> PromiseDetected"
  proof (cases "checks e")
    case (Inl r)
    then have "exit_at r \<noteq> PromiseDetected"
      unfolding chk
      using unset
      by (auto simp: then_do_Inl dest!: validate_Inl check_cap_Inl dest: transcript_checks_unset_Inl)
    with Inl show ?thesis by (simp add: stop_hook_Inl)
  next
    case (Inr v)
    obtain sf' n p' where "v = (sf', n, p')" by (cases v)
    with Inr show ?thesis by (simp add: stop_hook_Inr exit_at_continue_loop)
  qed
  have c: "\<forall>l\<in>set (out (stop_hook e)). \<not> prefix [CHR 0xE2, CHR 0x9C, CHR 0x85] l"
    using assms(1,2) unset by (rule no_check_mark)
  have d: \<open>exit_at (stop_hook e) = Blocked \<longrightarrow>
            (\<exists>i. bash_number it = Some i \<and>
               out (stop_hook e) =
                 [''{"decision":"block","reason":"'' @ escape_json (prompt_text sf)
                  @ ''","systemMessage":"'' @ [CHR 0xF0, CHR 0x9F, CHR 0x94, CHR 0x84]
                  @ '' Ralph iteration '' @ show_int (wrap64 (i + 1))
                  @ '' | No completion promise set - loop runs infinitely'' @ ''"}''])\<close>
  proof
    assume "exit_at (stop_hook e) = Blocked"
    then obtain sf' n p' where v: "checks e = Inr (sf', Some n, p')"
      and body: "prompt_text sf' \<noteq> []"
      by (auto simp: blocked_iff)
    from v have tc: "transcript_checks e sf it p = Inr (sf', Some n, p')"
      unfolding chk by (auto simp: then_do_Inr)
    then have eq: "sf' = sf" "p' = p" by (auto dest: transcript_checks_Inr)
    from tc obtain i where i: "bash_number it = Some i" "n = show_int (wrap64 (i + 1))"
      by (auto dest: transcript_checks_next)
    from v body have "out (stop_hook e) =
        split_lines (block_json (cmdsubst (escape_json (prompt_text sf')))
                     (cmdsubst (escape_json (system_msg n p'))) @ [nl])"
      by (simp add: stop_hook_Inr out_continue_loop)
    with eq i have \<open>out (stop_hook e) =
                 [''{"decision":"block","reason":"'' @ escape_json (prompt_text sf)
                  @ ''","systemMessage":"''
                  @ escape_json (system_msg (show_int (wrap64 (i + 1))) p) @ ''"}'']\<close>
      by (simp only: block_line)
    then have \<open>out (stop_hook e) =
                 [''{"decision":"block","reason":"'' @ escape_json (prompt_text sf)
                  @ ''","systemMessage":"'' @ [CHR 0xF0, CHR 0x9F, CHR 0x94, CHR 0x84]
                  @ '' Ralph iteration '' @ show_int (wrap64 (i + 1))
                  @ '' | No completion promise set - loop runs infinitely'' @ ''"}'']\<close>
      by (simp add: unset_msg_escaped[OF unset])
    with i(1) show \<open>\<exists>i. bash_number it = Some i \<and>
               out (stop_hook e) =
                 [''{"decision":"block","reason":"'' @ escape_json (prompt_text sf)
                  @ ''","systemMessage":"'' @ [CHR 0xF0, CHR 0x9F, CHR 0x94, CHR 0x84]
                  @ '' Ralph iteration '' @ show_int (wrap64 (i + 1))
                  @ '' | No completion promise set - loop runs infinitely'' @ ''"}'']\<close>
      by blast
  qed
  from a b c d show ?thesis by blast
qed

text \<open>The promise \<^verbatim>\<open>null\<close>, and an assistant turn that writes it between the tags: the
  loop continues with iteration 3, and the decision is the line below.\<close>

theorem null_promise_skips_detection_witness:
  \<open>parse_fields sf_null = Some (''2'', ''0'', ''null'')
   \<and> exit_code (stop_hook env_null) = 0
   \<and> out (stop_hook env_null) =
       [''{"decision":"block","reason":"Fix the bug","systemMessage":"''
        @ [CHR 0xF0, CHR 0x9F, CHR 0x94, CHR 0x84]
        @ '' Ralph iteration 3 | No completion promise set - loop runs infinitely"}'']\<close>
proof -
  have h1: "fs env_null RALPH_STATE_FILE = Some sf_null"
    by (simp add: env_null_def fs_run_env)
  have h2: "parse_fields sf_null = Some (''2'', ''0'', ''null'')"
    by code_simp
  have h3: "''null'' = ''null'' \<or> ''null'' = []"
    by simp
  have b: "exit_at (stop_hook env_null) = Blocked" "exit_code (stop_hook env_null) = 0"
    by code_simp+
  have n: "bash_number ''2'' = Some 2" "show_int (wrap64 (2 + 1)) = ''3''"
    "escape_json (prompt_text sf_null) = ''Fix the bug''"
    by code_simp+
  from null_promise_skips_detection[OF h1 h2 h3] b(1) n(1)
  have \<open>out (stop_hook env_null) =
                 [''{"decision":"block","reason":"'' @ escape_json (prompt_text sf_null)
                  @ ''","systemMessage":"'' @ [CHR 0xF0, CHR 0x9F, CHR 0x94, CHR 0x84]
                  @ '' Ralph iteration '' @ show_int (wrap64 (2 + 1))
                  @ '' | No completion promise set - loop runs infinitely'' @ ''"}'']\<close>
    by auto
  with h2 b(2) n(2,3) show ?thesis
    by simp
qed


end
